theory Spec2Isabelle
  imports Complex_Main "HOL-Library.Sublist"
begin

section \<open>The MongoDB subprocess manager (impulse/mongodb_subprocess.ts)\<close>

text \<open>
  The module is one class, \<^verbatim>\<open>MongoDBSubprocess\<close>, whose methods run on Node's event
  loop. The embedding keeps the class fields as a record, every closure the methods
  create (the listeners and timers of one run of \<^verbatim>\<open>_start\<close>, of one call of
  \<^verbatim>\<open>stop\<close>) as a record of the variables it captures, every promise as an entry of
  a table, and every callback the event loop may run as one constructor of an
  \<open>event\<close> datatype. One event is one macrotask: the callback runs to completion
  before the next event is looked at, as on the single thread of the event loop.
\<close>

subsection \<open>Values of the runtime\<close>

text \<open>
  \<^verbatim>\<open>new Error(message)\<close>: an error of the module is its message. \<open>SocketBadPort\<close> is the
  \<^verbatim>\<open>RangeError\<close> (code \<^verbatim>\<open>ERR_SOCKET_BAD_PORT\<close>) that \<^verbatim>\<open>server.listen\<close> throws when the
  port it is given is not an integer from 0 to 65535.
\<close>

datatype error = Error string | SocketBadPort int

text \<open>The three states of a promise.\<close>

datatype promise_state = Pending | Fulfilled | Rejected error

text \<open>
  What the caller of an \<^verbatim>\<open>async\<close> method holds: a promise that is fulfilled at
  once (the method returned without awaiting anything), or one that takes the state
  of the numbered promise of the table.
\<close>

datatype returned = Done | Awaits nat

datatype signal = SIGTERM | SIGKILL

text \<open>
  The calls that leave the class, in the order they are made. \<open>CallResolve\<close> and
  \<open>CallReject\<close> record each call of the \<^verbatim>\<open>resolve\<close> and \<^verbatim>\<open>reject\<close> functions a
  promise executor was given.
\<close>

datatype effect =
    Listen int string
  | ServerClose
  | MkdirSync string
  | Spawn string "string list"
  | Kill nat signal
  | CallResolve nat
  | CallReject nat error

text \<open>\<^verbatim>\<open>NodeJS.ErrnoException\<close>, as far as the module reads it.\<close>

record errno_exception =
  code :: "string option"
  message :: string

text \<open>
  The parts of Node the module calls and that are not modelled further: the working
  directory, \<^verbatim>\<open>path.join\<close>, \<^verbatim>\<open>path.dirname\<close>, \<^verbatim>\<open>String\<close> on the cache size (a number
  that need not be an integer), and the error \<^verbatim>\<open>fs.mkdirSync\<close> throws for a directory
  it cannot create (\<open>None\<close> where it succeeds).
\<close>

record node =
  cwd :: string
  path_join :: "string list \<Rightarrow> string"
  path_dirname :: "string \<Rightarrow> string"
  String_number :: "rat \<Rightarrow> string"
  mkdirSync_throws :: "string \<Rightarrow> error option"

subsection \<open>Strings\<close>

text \<open>
  \<^verbatim>\<open>String(n)\<close>, and \<^verbatim>\<open>n\<close> in a template literal, for a number \<open>n\<close> that is a safe
  integer (an integer of magnitude below \<open>2^53\<close>): the decimal digits, with a minus sign
  for a negative number. JavaScript prints other numbers differently (a fraction,
  exponent notation from \<open>10^21\<close> on); they are outside this function, and what is
  proved below of a printed port is stated for ports that are safe integers.
\<close>

definition safe_integer :: "int \<Rightarrow> bool" where
  "safe_integer n = (- (2 ^ 53) < n \<and> n < 2 ^ 53)"

fun digits :: "nat \<Rightarrow> string" where
  "digits n = (if n < 10 then [''0123456789'' ! n]
               else digits (n div 10) @ [''0123456789'' ! (n mod 10)])"

declare digits.simps [simp del]

definition String_int :: "int \<Rightarrow> string" where
  "String_int i = (if i < 0 then CHR ''-'' # digits (nat (- i)) else digits (nat i))"

text \<open>\<^verbatim>\<open>s.includes(t)\<close>: \<open>t\<close> occurs in \<open>s\<close> as a contiguous run of characters.\<close>

fun includes_str :: "string \<Rightarrow> string \<Rightarrow> bool" where
  "includes_str [] t = (t = [])"
| "includes_str (c # s) t = (prefix t (c # s) \<or> includes_str s t)"

subsection \<open>Configuration\<close>

text \<open>
  \<^verbatim>\<open>MongoSubprocessConfig\<close> is what the caller passes (every field but \<^verbatim>\<open>enabled\<close>
  may be absent); \<^verbatim>\<open>SubprocessConfig\<close> is what the constructor stores. The port is an
  integer-valued number; a port that is not an integer is not modelled.
\<close>

record MongoSubprocessConfig =
  enabled :: bool
  mongodPath :: "string option"
  dbPath :: "string option"
  port :: "int option"
  logPath :: "string option"
  wiredTigerCacheSizeGB :: "rat option"

record SubprocessConfig =
  enabled :: bool
  mongodPath :: string
  dbPath :: string
  port :: int
  logPath :: string
  wiredTigerCacheSizeGB :: "rat option"

text \<open>
  \<^verbatim>\<open>a || b\<close> on an optional string and on an optional number: \<open>b\<close> when \<open>a\<close> is
  absent or falsy (the empty string, zero).
\<close>

definition or_string :: "string option \<Rightarrow> string \<Rightarrow> string" where
  "or_string a b = (case a of None \<Rightarrow> b | Some s \<Rightarrow> if s = [] then b else s)"

definition or_number :: "int option \<Rightarrow> int \<Rightarrow> int" where
  "or_number a b = (case a of None \<Rightarrow> b | Some n \<Rightarrow> if n = 0 then b else n)"

text \<open>The fields of a \<^verbatim>\<open>MongoDBSubprocess\<close>. A process or a promise is its number.\<close>

record MongoDBSubprocess =
  process :: "nat option"
  config :: SubprocessConfig
  isRunning :: bool
  startupPromise :: "nat option"

text \<open>
  The constructor. The object literal it stores has no \<^verbatim>\<open>wiredTigerCacheSizeGB\<close>
  property, so reading that property of \<^verbatim>\<open>this.config\<close> gives \<^verbatim>\<open>undefined\<close>.
\<close>

definition constructor :: "node \<Rightarrow> MongoSubprocessConfig \<Rightarrow> MongoDBSubprocess" where
  "constructor nd c =
     \<lparr> process = None,
       config = \<lparr> enabled = MongoSubprocessConfig.enabled c,
                  mongodPath = or_string (MongoSubprocessConfig.mongodPath c) ''mongod'',
                  dbPath = or_string (MongoSubprocessConfig.dbPath c)
                             (path_join nd [cwd nd, ''.mongodb-data'']),
                  port = or_number (MongoSubprocessConfig.port c) 27017,
                  logPath = or_string (MongoSubprocessConfig.logPath c)
                              (path_join nd [cwd nd, ''logs'', ''mongodb.log'']),
                  wiredTigerCacheSizeGB = None \<rparr>,
       isRunning = False,
       startupPromise = None \<rparr>"

text \<open>The argument list \<^verbatim>\<open>_start\<close> builds for \<^verbatim>\<open>spawn\<close>.\<close>

definition spawn_args :: "node \<Rightarrow> SubprocessConfig \<Rightarrow> string list" where
  "spawn_args nd cfg =
     [''--dbpath'', dbPath cfg,
      ''--port'', String_int (port cfg),
      ''--logpath'', logPath cfg,
      ''--bind_ip'', ''127.0.0.1'']
     @ (case wiredTigerCacheSizeGB cfg of
          None \<Rightarrow> []
        | Some g \<Rightarrow> [''--wiredTigerCacheSizeGB'', String_number nd g])"

text \<open>\<^verbatim>\<open>getConnectionUri\<close> and \<^verbatim>\<open>isProcessRunning\<close>.\<close>

definition getConnectionUri :: "MongoDBSubprocess \<Rightarrow> string" where
  "getConnectionUri m = ''mongodb://127.0.0.1:'' @ String_int (port (config m))"

definition isProcessRunning :: "MongoDBSubprocess \<Rightarrow> bool" where
  "isProcessRunning m = isRunning m"

subsection \<open>Closures and the world\<close>

text \<open>
  The variables the executor of \<^verbatim>\<open>new Promise\<close> in \<^verbatim>\<open>_start\<close> declares, one record
  for each spawned process (the listeners of that process are the closures over
  them): the startup timer (its delay in milliseconds while it is armed), the
  \<^verbatim>\<open>resolved\<close> flag, and the promise that \<^verbatim>\<open>resolve\<close> and \<^verbatim>\<open>reject\<close> settle.
  \<^verbatim>\<open>_start\<close> returns that promise as its result, so the promise of \<^verbatim>\<open>_start\<close> (the
  one stored in \<^verbatim>\<open>startupPromise\<close>) takes its state: the two are one entry of the
  table.
\<close>

record startup_closure =
  startupTimeout :: "nat option"
  resolved :: bool
  settles :: nat

text \<open>
  The same for the executor in \<^verbatim>\<open>stop\<close>: the process \<^verbatim>\<open>once('exit')\<close> was
  registered on, the grace timer, whether the once-listener is still registered,
  and the promise \<^verbatim>\<open>resolve\<close> settles.
\<close>

record stop_closure =
  target :: nat
  timeout :: "nat option"
  listening :: bool
  resolves :: nat

text \<open>
  The world: the instance, the runtime, the directories that exist, the promise
  table, the runs of \<^verbatim>\<open>_start\<close> suspended at \<^verbatim>\<open>await this.checkPortAvailable\<close> (each
  named by its promise), the processes spawned so far, the calls of \<^verbatim>\<open>stop\<close> that
  went past the guard, and the effects so far.
\<close>

record world =
  this :: MongoDBSubprocess
  runtime :: node
  dirs :: "string list"
  promises :: "promise_state list"
  probing :: "nat list"
  children :: "startup_closure list"
  stops :: "stop_closure list"
  trace :: "effect list"

text \<open>A promise changes state once: settling a promise that is not pending does nothing.\<close>

definition settle :: "nat \<Rightarrow> promise_state \<Rightarrow> promise_state list \<Rightarrow> promise_state list" where
  "settle p st ps = (if p < length ps \<and> ps ! p = Pending then ps[p := st] else ps)"

definition resolve :: "nat \<Rightarrow> world \<Rightarrow> world" where
  "resolve p w = w\<lparr>promises := settle p Fulfilled (promises w),
                   trace := trace w @ [CallResolve p]\<rparr>"

definition reject :: "nat \<Rightarrow> error \<Rightarrow> world \<Rightarrow> world" where
  "reject p e w = w\<lparr>promises := settle p (Rejected e) (promises w),
                    trace := trace w @ [CallReject p e]\<rparr>"

subsection \<open>stop\<close>

text \<open>
  \<^verbatim>\<open>stop()\<close> up to its return: the guard, then the executor (the 5000 ms timer, the
  once-listener for \<^verbatim>\<open>exit\<close>, \<^verbatim>\<open>kill('SIGTERM')\<close>).
\<close>

definition stop :: "world \<Rightarrow> returned \<times> world" where
  "stop w =
     (case process (this w) of
        None \<Rightarrow> (Done, w)
      | Some c \<Rightarrow>
          if \<not> isRunning (this w) then (Done, w)
          else (Awaits (length (promises w)),
                w\<lparr>promises := promises w @ [Pending],
                  stops := stops w @ [\<lparr>target = c, timeout = Some 5000, listening = True,
                                        resolves = length (promises w)\<rparr>],
                  trace := trace w @ [Kill c SIGTERM]\<rparr>))"

text \<open>The callback of the grace timer of the \<open>i\<close>-th call of \<^verbatim>\<open>stop\<close>.\<close>

definition stop_timeout :: "nat \<Rightarrow> world \<Rightarrow> world" where
  "stop_timeout i w =
     resolve (resolves (stops w ! i))
       (case process (this w) of
          None \<Rightarrow> w
        | Some c \<Rightarrow> w\<lparr>trace := trace w @ [Kill c SIGKILL]\<rparr>)"

text \<open>Its once-listener for \<^verbatim>\<open>exit\<close>.\<close>

definition stop_exit :: "nat \<Rightarrow> world \<Rightarrow> world" where
  "stop_exit i w =
     resolve (resolves (stops w ! i))
       (w\<lparr>stops := (stops w)[i := (stops w ! i)\<lparr>timeout := None, listening := False\<rparr>],
          this := (this w)\<lparr>isRunning := False, process := None, startupPromise := None\<rparr>\<rparr>)"

subsection \<open>The executor of _start: cleanup, doResolve, doReject and the listeners\<close>

definition cleanup :: "nat \<Rightarrow> world \<Rightarrow> world" where
  "cleanup c w = w\<lparr>children := (children w)[c := (children w ! c)\<lparr>startupTimeout := None\<rparr>]\<rparr>"

definition doResolve :: "nat \<Rightarrow> world \<Rightarrow> world" where
  "doResolve c w =
     (if resolved (children w ! c) then w
      else let w1 = w\<lparr>children := (children w)[c := (children w ! c)\<lparr>resolved := True\<rparr>]\<rparr>;
               w2 = cleanup c w1;
               w3 = w2\<lparr>this := (this w2)\<lparr>isRunning := True\<rparr>\<rparr>
           in resolve (settles (children w3 ! c)) w3)"

definition doReject :: "nat \<Rightarrow> error \<Rightarrow> world \<Rightarrow> world" where
  "doReject c e w =
     (if resolved (children w ! c) then w
      else let w1 = w\<lparr>children := (children w)[c := (children w ! c)\<lparr>resolved := True\<rparr>]\<rparr>;
               w2 = cleanup c w1;
               w3 = snd (stop w2)
           in reject (settles (children w3 ! c)) e w3)"

definition on_stdout_data :: "nat \<Rightarrow> string \<Rightarrow> world \<Rightarrow> world" where
  "on_stdout_data c output w =
     (if includes_str output ''Waiting for connections''
         \<or> includes_str output ''waiting for connections''
      then doResolve c w else w)"

definition on_stderr_data :: "nat \<Rightarrow> string \<Rightarrow> world \<Rightarrow> world" where
  "on_stderr_data c output w =
     (if includes_str output ''Waiting for connections''
         \<or> includes_str output ''waiting for connections''
      then doResolve c w else w)"

definition on_error :: "nat \<Rightarrow> string \<Rightarrow> world \<Rightarrow> world" where
  "on_error c msg w = doReject c (Error (''Failed to start MongoDB subprocess: '' @ msg)) w"

text \<open>The exit code is a number or \<^verbatim>\<open>null\<close>.\<close>

definition String_code :: "int option \<Rightarrow> string" where
  "String_code k = (case k of None \<Rightarrow> ''null'' | Some n \<Rightarrow> String_int n)"

definition on_exit :: "nat \<Rightarrow> int option \<Rightarrow> world \<Rightarrow> world" where
  "on_exit c k w =
     (let w1 = w\<lparr>this := (this w)\<lparr>isRunning := False, process := None\<rparr>\<rparr>
      in if \<not> resolved (children w1 ! c)
         then doReject c (Error (''MongoDB subprocess exited with code '' @ String_code k
                                  @ '' before starting'')) w1
         else w1)"

definition on_startup_timeout :: "nat \<Rightarrow> world \<Rightarrow> world" where
  "on_startup_timeout c w = doReject c (Error ''MongoDB subprocess startup timeout (30s)'') w"

subsection \<open>checkPortAvailable, _start and start\<close>

text \<open>The error \<^verbatim>\<open>checkPortAvailable\<close> rejects with when the server emits \<^verbatim>\<open>error\<close>.\<close>

definition checkPortAvailable_error :: "int \<Rightarrow> errno_exception \<Rightarrow> error" where
  "checkPortAvailable_error prt err =
     (if code err = Some ''EADDRINUSE''
      then Error (''Port '' @ String_int prt
                  @ '' is already in use. Cannot start MongoDB subprocess.'')
      else Error (''Port check failed: '' @ message err))"

text \<open>
  \<^verbatim>\<open>_start\<close> up to its first suspension. It returns its promise: fulfilled at once
  when \<^verbatim>\<open>isRunning\<close> holds; otherwise \<^verbatim>\<open>checkPortAvailable\<close> is called, and
  \<^verbatim>\<open>server.listen(port, '127.0.0.1')\<close> either accepts the port (an integer from 0 to
  65535), and the promise is pending with the probe server asked to listen, or throws,
  and the promise is rejected with what it threw. The promise of
  \<^verbatim>\<open>checkPortAvailable\<close> is awaited by this run of \<^verbatim>\<open>_start\<close> alone and has no entry of
  its own: its fulfilment resumes the run, its rejection is the rejection of the run's
  promise.
\<close>

definition start_private :: "world \<Rightarrow> nat \<times> world" where
  "start_private w =
     (if isRunning (this w)
      then (length (promises w), w\<lparr>promises := promises w @ [Fulfilled]\<rparr>)
      else if 0 \<le> port (config (this w)) \<and> port (config (this w)) < 65536
      then (length (promises w),
            w\<lparr>promises := promises w @ [Pending],
              probing := probing w @ [length (promises w)],
              trace := trace w @ [Listen (port (config (this w))) ''127.0.0.1'']\<rparr>)
      else (length (promises w),
            w\<lparr>promises := promises w @ [Rejected (SocketBadPort (port (config (this w))))]\<rparr>))"

text \<open>
  \<^verbatim>\<open>if (!fs.existsSync(d)) fs.mkdirSync(d, { recursive: true })\<close>: the error
  \<^verbatim>\<open>mkdirSync\<close> throws, if it throws, and the world at that point. Of the directories
  \<^verbatim>\<open>mkdirSync\<close> creates only \<open>d\<close> itself is recorded.
\<close>

definition ensure_dir :: "string \<Rightarrow> world \<Rightarrow> error option \<times> world" where
  "ensure_dir d w =
     (if d \<in> set (dirs w) then (None, w)
      else case mkdirSync_throws (runtime w) d of
             Some e \<Rightarrow> (Some e, w)
           | None \<Rightarrow> (None, w\<lparr>dirs := d # dirs w, trace := trace w @ [MkdirSync d]\<rparr>))"

text \<open>
  The rest of \<^verbatim>\<open>_start\<close>, run when the awaited port check is fulfilled. First the two
  directories (\<open>start_dirs\<close>: the data directory, then the directory of the log file,
  stopping at the first throw). Then the arguments, \<^verbatim>\<open>spawn\<close>, and the executor's
  declarations, that is the listeners and the 30000 ms timer (\<open>start_spawn\<close>);
  \<^verbatim>\<open>spawn\<close> reports a failure through the \<^verbatim>\<open>error\<close> event. A throw of \<^verbatim>\<open>mkdirSync\<close>
  leaves \<^verbatim>\<open>_start\<close> before anything is spawned and rejects its promise.
\<close>

definition start_dirs :: "world \<Rightarrow> error option \<times> world" where
  "start_dirs w =
     (case ensure_dir (dbPath (config (this w))) w of
        (Some e, w1) \<Rightarrow> (Some e, w1)
      | (None, w1) \<Rightarrow>
          ensure_dir (path_dirname (runtime w) (logPath (config (this w)))) w1)"

definition start_spawn :: "nat \<Rightarrow> world \<Rightarrow> world" where
  "start_spawn p w =
     w\<lparr>this := (this w)\<lparr>process := Some (length (children w))\<rparr>,
       children := children w
                   @ [\<lparr>startupTimeout = Some 30000, resolved = False, settles = p\<rparr>],
       trace := trace w @ [Spawn (mongodPath (config (this w)))
                                 (spawn_args (runtime w) (config (this w)))]\<rparr>"

definition start_resume :: "nat \<Rightarrow> world \<Rightarrow> world" where
  "start_resume p w =
     (case start_dirs w of
        (Some e, w2) \<Rightarrow> w2\<lparr>promises := settle p (Rejected e) (promises w2)\<rparr>
      | (None, w2) \<Rightarrow> start_spawn p w2)"

definition start :: "world \<Rightarrow> returned \<times> world" where
  "start w =
     (if \<not> enabled (config (this w)) then (Done, w)
      else case startupPromise (this w) of
             Some p \<Rightarrow> (Awaits p, w)
           | None \<Rightarrow>
               (let (p, w1) = start_private w
                in (Awaits p, w1\<lparr>this := (this w1)\<lparr>startupPromise := Some p\<rparr>\<rparr>)))"

subsection \<open>The event loop\<close>

text \<open>
  What the event loop may run next: a call of \<^verbatim>\<open>start\<close> or \<^verbatim>\<open>stop\<close> by the host, the
  outcome of a port probe (\<^verbatim>\<open>listening\<close> followed by the callback of \<^verbatim>\<open>close\<close>, taken
  as one event since the class does nothing between them; or \<^verbatim>\<open>error\<close>), a chunk on
  a process's stdout or stderr, a process's \<^verbatim>\<open>error\<close> or \<^verbatim>\<open>exit\<close> event, the startup
  timer of a process, the grace timer of a call of \<^verbatim>\<open>stop\<close>.
\<close>

datatype event =
    CallStart
  | CallStop
  | ServerListening nat
  | ServerError nat errno_exception
  | StdoutData nat string
  | StderrData nat string
  | ChildError nat string
  | ChildExit nat "int option"
  | StartupTimeout nat
  | StopTimeout nat

text \<open>
  The once-listeners for \<^verbatim>\<open>exit\<close> that calls of \<^verbatim>\<open>stop\<close> left on process \<open>c\<close>, in
  the order they were registered.
\<close>

definition exit_listeners :: "nat \<Rightarrow> world \<Rightarrow> nat list" where
  "exit_listeners c w =
     filter (\<lambda>i. target (stops w ! i) = c \<and> listening (stops w ! i)) [0..<length (stops w)]"

text \<open>
  One event. A probe outcome is delivered to a suspended run only, and once; an event
  of a process only if the process was spawned; a timer only while it is armed, and it
  is disarmed as it fires. On \<^verbatim>\<open>exit\<close> the listener \<^verbatim>\<open>_start\<close> registered runs first,
  then the once-listeners of \<^verbatim>\<open>stop\<close>.
\<close>

fun step :: "event \<Rightarrow> world \<Rightarrow> world" where
  "step CallStart w = snd (start w)"
| "step CallStop w = snd (stop w)"
| "step (ServerListening p) w =
     (if p \<in> set (probing w)
      then start_resume p (w\<lparr>probing := removeAll p (probing w),
                              trace := trace w @ [ServerClose]\<rparr>)
      else w)"
| "step (ServerError p err) w =
     (if p \<in> set (probing w)
      then w\<lparr>probing := removeAll p (probing w),
             promises := settle p (Rejected (checkPortAvailable_error
                                               (port (config (this w))) err)) (promises w)\<rparr>
      else w)"
| "step (StdoutData c output) w =
     (if c < length (children w) then on_stdout_data c output w else w)"
| "step (StderrData c output) w =
     (if c < length (children w) then on_stderr_data c output w else w)"
| "step (ChildError c msg) w =
     (if c < length (children w) then on_error c msg w else w)"
| "step (ChildExit c k) w =
     (if c < length (children w)
      then fold stop_exit (exit_listeners c w) (on_exit c k w)
      else w)"
| "step (StartupTimeout c) w =
     (if c < length (children w) \<and> startupTimeout (children w ! c) \<noteq> None
      then on_startup_timeout c
             (w\<lparr>children := (children w)[c := (children w ! c)\<lparr>startupTimeout := None\<rparr>]\<rparr>)
      else w)"
| "step (StopTimeout i) w =
     (if i < length (stops w) \<and> timeout (stops w ! i) \<noteq> None
      then stop_timeout i (w\<lparr>stops := (stops w)[i := (stops w ! i)\<lparr>timeout := None\<rparr>]\<rparr>)
      else w)"

declare step.simps [simp del]

definition run :: "event list \<Rightarrow> world \<Rightarrow> world" where
  "run es w = fold step es w"

text \<open>The world in which an instance has just been constructed.\<close>

definition boot :: "node \<Rightarrow> string list \<Rightarrow> MongoSubprocessConfig \<Rightarrow> world" where
  "boot nd ds c =
     \<lparr>this = constructor nd c, runtime = nd, dirs = ds, promises = [], probing = [],
      children = [], stops = [], trace = []\<rparr>"

subsection \<open>Notions the properties are stated with\<close>

text \<open>
  The two directories of \<^verbatim>\<open>_start\<close> exist or can be created: \<^verbatim>\<open>mkdirSync\<close> does not
  throw there.
\<close>

definition dirs_ready :: "world \<Rightarrow> bool" where
  "dirs_ready w = (fst (start_dirs w) = None)"

text \<open>The number of processes spawned so far.\<close>

definition spawned :: "world \<Rightarrow> nat" where
  "spawned w = length (filter (\<lambda>e. case e of Spawn _ _ \<Rightarrow> True | _ \<Rightarrow> False) (trace w))"

text \<open>
  The number of calls of \<^verbatim>\<open>resolve\<close> or \<^verbatim>\<open>reject\<close> made so far for promise \<open>p\<close>, and
  the number of calls of \<^verbatim>\<open>resolve\<close> alone.
\<close>

definition settlements :: "nat \<Rightarrow> world \<Rightarrow> nat" where
  "settlements p w =
     length (filter (\<lambda>e. case e of CallResolve q \<Rightarrow> q = p | CallReject q _ \<Rightarrow> q = p
                           | _ \<Rightarrow> False) (trace w))"

definition resolutions :: "nat \<Rightarrow> world \<Rightarrow> nat" where
  "resolutions p w =
     length (filter (\<lambda>e. case e of CallResolve q \<Rightarrow> q = p | _ \<Rightarrow> False) (trace w))"

text \<open>
  Promise \<open>p\<close> is the one the executor of process \<open>c\<close> settles, and nothing else
  holds it: no other process's executor, no call of \<^verbatim>\<open>stop\<close>, no suspended run of
  \<^verbatim>\<open>_start\<close>.
\<close>

definition sole_settler :: "nat \<Rightarrow> nat \<Rightarrow> world \<Rightarrow> bool" where
  "sole_settler c p w =
     (c < length (children w) \<and> settles (children w ! c) = p \<and> p < length (promises w)
      \<and> list_all (\<lambda>d. d = c \<or> settles (children w ! d) \<noteq> p) [0..<length (children w)]
      \<and> list_all (\<lambda>s. resolves s \<noteq> p) (stops w)
      \<and> p \<notin> set (probing w))"

text \<open>
  The startup attempt of process \<open>c\<close> with promise \<open>p\<close> before any signal: the
  \<^verbatim>\<open>resolved\<close> flag is false, the startup timer is armed, the promise is pending and
  neither \<^verbatim>\<open>resolve\<close> nor \<^verbatim>\<open>reject\<close> has been called for it. And the attempt once it
  has settled as \<open>st\<close>: the flag is true, the promise is in state \<open>st\<close>, and one call
  of \<^verbatim>\<open>resolve\<close> or \<^verbatim>\<open>reject\<close> has been made for it.
\<close>

definition unsettled :: "nat \<Rightarrow> nat \<Rightarrow> world \<Rightarrow> bool" where
  "unsettled c p w =
     (sole_settler c p w \<and> \<not> resolved (children w ! c)
      \<and> startupTimeout (children w ! c) \<noteq> None
      \<and> promises w ! p = Pending \<and> settlements p w = 0)"

definition settled_as :: "nat \<Rightarrow> nat \<Rightarrow> promise_state \<Rightarrow> world \<Rightarrow> bool" where
  "settled_as c p st w =
     (sole_settler c p w \<and> resolved (children w ! c)
      \<and> promises w ! p = st \<and> settlements p w = 1)"

text \<open>
  World \<open>v\<close> differs from \<open>w\<close> in nothing that concerns the attempt of process \<open>c\<close>
  with promise \<open>p\<close>.
\<close>

definition untouched :: "nat \<Rightarrow> nat \<Rightarrow> world \<Rightarrow> world \<Rightarrow> bool" where
  "untouched c p w v =
     (sole_settler c p v \<and> children v ! c = children w ! c \<and> promises v ! p = promises w ! p
      \<and> settlements p v = settlements p w)"

text \<open>
  Promise \<open>p\<close> belongs to a call of \<^verbatim>\<open>stop\<close>: no executor of \<^verbatim>\<open>_start\<close> and no
  suspended run of \<^verbatim>\<open>_start\<close> holds it.
\<close>

definition stop_owned :: "nat \<Rightarrow> world \<Rightarrow> bool" where
  "stop_owned p w =
     (p < length (promises w)
      \<and> list_all (\<lambda>k. settles k \<noteq> p) (children w)
      \<and> p \<notin> set (probing w))"

text \<open>
  From \<open>w\<close> to \<open>v\<close>, such a promise has kept its state or has been fulfilled.
\<close>

definition advanced :: "nat \<Rightarrow> world \<Rightarrow> world \<Rightarrow> bool" where
  "advanced p w v =
     (stop_owned p v \<and> (promises v ! p = promises w ! p \<or> promises v ! p = Fulfilled))"

text \<open>
  Every promise that an executor of \<^verbatim>\<open>_start\<close> or a suspended run of \<^verbatim>\<open>_start\<close>
  holds is an entry of the table.
\<close>

definition promises_allocated :: "world \<Rightarrow> bool" where
  "promises_allocated w =
     (list_all (\<lambda>k. settles k < length (promises w)) (children w)
      \<and> list_all (\<lambda>q. q < length (promises w)) (probing w))"

text \<open>
  What holds of every world a freshly constructed instance can reach. First, every
  promise that a closure, a suspended run or a recorded call names is an entry of the
  table, and the process handle, when there is one, is a spawned process.
\<close>

definition ids_bounded :: "world \<Rightarrow> bool" where
  "ids_bounded w =
     (list_all (\<lambda>k. settles k < length (promises w)) (children w)
      \<and> list_all (\<lambda>q. q < length (promises w)) (probing w)
      \<and> list_all (\<lambda>s. resolves s < length (promises w)) (stops w)
      \<and> list_all (\<lambda>x. case x of CallResolve q \<Rightarrow> q < length (promises w)
                          | CallReject q _ \<Rightarrow> q < length (promises w) | _ \<Rightarrow> True) (trace w)
      \<and> (case process (this w) of None \<Rightarrow> True | Some c \<Rightarrow> c < length (children w)))"

text \<open>
  No closure holds promise \<open>q\<close>. And, for the promise of a suspended run of \<^verbatim>\<open>_start\<close>:
  no closure holds it, it is pending, and it has never been settled.
\<close>

definition free :: "nat \<Rightarrow> world \<Rightarrow> bool" where
  "free q w =
     (q < length (promises w)
      \<and> list_all (\<lambda>k. settles k \<noteq> q) (children w)
      \<and> list_all (\<lambda>s. resolves s \<noteq> q) (stops w))"

definition probe_fresh :: "nat \<Rightarrow> world \<Rightarrow> bool" where
  "probe_fresh q w = (free q w \<and> promises w ! q = Pending \<and> settlements q w = 0)"

text \<open>
  Second, the suspended runs are distinct and their promises fresh, and every spawned
  process whose \<^verbatim>\<open>resolved\<close> flag is still false is an attempt before any signal.
\<close>

definition consistent :: "world \<Rightarrow> bool" where
  "consistent w =
     (ids_bounded w \<and> distinct (probing w)
      \<and> list_all (\<lambda>q. probe_fresh q w) (probing w)
      \<and> list_all (\<lambda>c. resolved (children w ! c)
                        \<or> unsettled c (settles (children w ! c)) w) [0..<length (children w)])"

text \<open>
  Third, the order of the life cycle: at most one run of \<^verbatim>\<open>_start\<close> is suspended and at
  most the newest process is unsettled; while either is the case the controller is
  not running, no listener of \<^verbatim>\<open>stop\<close> is registered, and \<^verbatim>\<open>startupPromise\<close> holds the
  promise concerned; a cleared \<^verbatim>\<open>startupPromise\<close> means that everything is at rest; a
  registered listener of \<^verbatim>\<open>stop\<close> and the process handle are on the newest process.
\<close>

definition all_resolved :: "world \<Rightarrow> bool" where
  "all_resolved w = list_all resolved (children w)"

definition live :: "world \<Rightarrow> bool" where
  "live w = list_ex listening (stops w)"

definition lifecycle :: "world \<Rightarrow> bool" where
  "lifecycle w =
     (list_all resolved (butlast (children w))
      \<and> length (probing w) \<le> 1
      \<and> (startupPromise (this w) = None \<longrightarrow>
            \<not> isRunning (this w) \<and> probing w = [] \<and> all_resolved w \<and> \<not> live w)
      \<and> (probing w \<noteq> [] \<longrightarrow>
            \<not> isRunning (this w) \<and> all_resolved w \<and> \<not> live w
            \<and> startupPromise (this w) = Some (hd (probing w)))
      \<and> (\<not> all_resolved w \<longrightarrow>
            \<not> isRunning (this w) \<and> \<not> live w
            \<and> startupPromise (this w) = Some (settles (last (children w))))
      \<and> list_all (\<lambda>s. listening s \<longrightarrow> Suc (target s) = length (children w)) (stops w)
      \<and> (process (this w) = None
          \<or> map_option Suc (process (this w)) = Some (length (children w))))"

text \<open>From \<open>w\<close> to \<open>v\<close>, nothing has happened to a promise no closure holds.\<close>

definition kept :: "nat \<Rightarrow> world \<Rightarrow> world \<Rightarrow> bool" where
  "kept q w v =
     (free q v \<and> promises v ! q = promises w ! q \<and> settlements q v = settlements q w)"

text \<open>
  The four startup signals of process \<open>c\<close>: a chunk on stdout or stderr that
  carries the marker as the listeners test for it, the \<^verbatim>\<open>error\<close> event, the \<^verbatim>\<open>exit\<close>
  event, the startup timer. And the state each of them settles the promise to when it
  is the first.
\<close>

fun is_signal :: "nat \<Rightarrow> event \<Rightarrow> bool" where
  "is_signal c (StdoutData d output) =
     (d = c \<and> (includes_str output ''Waiting for connections''
                \<or> includes_str output ''waiting for connections''))"
| "is_signal c (StderrData d output) =
     (d = c \<and> (includes_str output ''Waiting for connections''
                \<or> includes_str output ''waiting for connections''))"
| "is_signal c (ChildError d msg) = (d = c)"
| "is_signal c (ChildExit d k) = (d = c)"
| "is_signal c (StartupTimeout d) = (d = c)"
| "is_signal c e = False"

fun outcome :: "event \<Rightarrow> promise_state" where
  "outcome (StdoutData d output) = Fulfilled"
| "outcome (StderrData d output) = Fulfilled"
| "outcome (ChildError d msg) =
     Rejected (Error (''Failed to start MongoDB subprocess: '' @ msg))"
| "outcome (ChildExit d k) =
     Rejected (Error (''MongoDB subprocess exited with code '' @ String_code k
                      @ '' before starting''))"
| "outcome (StartupTimeout d) = Rejected (Error ''MongoDB subprocess startup timeout (30s)'')"
| "outcome e = Pending"

text \<open>A chunk of output, on either stream of process \<open>c\<close>.\<close>

fun is_chunk :: "nat \<Rightarrow> event \<Rightarrow> bool" where
  "is_chunk c (StdoutData d output) = (d = c)"
| "is_chunk c (StderrData d output) = (d = c)"
| "is_chunk c e = False"

text \<open>An \<^verbatim>\<open>exit\<close> event, of any process.\<close>

fun is_exit :: "event \<Rightarrow> bool" where
  "is_exit (ChildExit d k) = True"
| "is_exit e = False"

text \<open>
  Case-insensitive containment, as the specification words the readiness test: both
  strings are compared with their ASCII capitals lowered.
\<close>

definition lowercase :: "char \<Rightarrow> char" where
  "lowercase ch =
     (case map_of (zip ''ABCDEFGHIJKLMNOPQRSTUVWXYZ'' ''abcdefghijklmnopqrstuvwxyz'') ch of
        None \<Rightarrow> ch | Some l \<Rightarrow> l)"

definition includes_ignoring_case :: "string \<Rightarrow> string \<Rightarrow> bool" where
  "includes_ignoring_case s t = includes_str (map lowercase s) (map lowercase t)"

text \<open>
  Reading a decimal numeral: the value of a digit, of a run of digits, of a numeral
  without sign (no leading zero), and of a numeral with an optional minus sign. It is
  written without reference to \<open>String_int\<close> and serves to say which number a printed
  port denotes.
\<close>

definition digit_value :: "char \<Rightarrow> nat option" where
  "digit_value ch =
     map_of [(CHR ''0'', 0), (CHR ''1'', 1), (CHR ''2'', 2), (CHR ''3'', 3), (CHR ''4'', 4),
             (CHR ''5'', 5), (CHR ''6'', 6), (CHR ''7'', 7), (CHR ''8'', 8), (CHR ''9'', 9)] ch"

fun read_digits :: "nat \<Rightarrow> string \<Rightarrow> nat option" where
  "read_digits acc [] = Some acc"
| "read_digits acc (ch # s) =
     (case digit_value ch of None \<Rightarrow> None | Some d \<Rightarrow> read_digits (10 * acc + d) s)"

definition read_nat :: "string \<Rightarrow> nat option" where
  "read_nat s = (if s = [] \<or> (hd s = CHR ''0'' \<and> tl s \<noteq> []) then None else read_digits 0 s)"

definition read_int :: "string \<Rightarrow> int option" where
  "read_int s =
     (if s \<noteq> [] \<and> hd s = CHR ''-'' then map_option (\<lambda>n. - int n) (read_nat (tl s))
      else map_option int (read_nat s))"

subsection \<open>A concrete run\<close>

text \<open>
  A runtime with working directory \<^verbatim>\<open>/srv\<close>, and a caller's configuration that leaves
  every path and the port to the defaults and asks for a cache of half a gigabyte.
\<close>

definition example_node :: node where
  "example_node =
     \<lparr>cwd = ''/srv'',
      path_join = (\<lambda>ps. foldr (\<lambda>a b. if b = [] then a else a @ ''/'' @ b) ps []),
      path_dirname = (\<lambda>f. ''/srv/logs''),
      String_number = (\<lambda>r. ''0.5''),
      mkdirSync_throws = (\<lambda>d. None)\<rparr>"

definition example_config :: MongoSubprocessConfig where
  "example_config =
     \<lparr>MongoSubprocessConfig.enabled = True, mongodPath = None, dbPath = None, port = None,
      logPath = None, wiredTigerCacheSizeGB = Some (1 / 2)\<rparr>"

text \<open>
  The world after \<^verbatim>\<open>start()\<close> and a successful port probe (the process is spawned,
  nothing has come from it yet); after the marker then arrived on stdout; and after
  \<^verbatim>\<open>stop()\<close> was then called.
\<close>

definition starting :: world where
  "starting = run [CallStart, ServerListening 0] (boot example_node [] example_config)"

definition ready :: world where
  "ready = step (StdoutData 0 ''NETWORK  [listener] waiting for connections on port 27017'')
             starting"

definition stopping :: world where
  "stopping = step CallStop ready"

definition probing_world :: world where
  "probing_world = step CallStart (boot example_node [] example_config)"

definition stopped :: world where
  "stopped = boot example_node [] example_config"

text \<open>
  The same configuration with port 27018; a runtime in which \<^verbatim>\<open>mkdirSync\<close> always
  throws, a controller constructed there, and that controller after \<^verbatim>\<open>start()\<close>.
\<close>

definition other_port :: MongoSubprocessConfig where
  "other_port = example_config\<lparr>MongoSubprocessConfig.port := Some 27018\<rparr>"

definition read_only_node :: node where
  "read_only_node =
     example_node\<lparr>mkdirSync_throws :=
                    (\<lambda>d. Some (Error (''EACCES: permission denied, mkdir '' @ d)))\<rparr>"

definition read_only :: world where
  "read_only = boot read_only_node [] example_config"

definition probing_read_only :: world where
  "probing_read_only = step CallStart read_only"

section \<open>Properties\<close>

subsection \<open>The concrete run, evaluated\<close>

lemma String_int_27017: "String_int 27017 = ''27017''"
  by (simp add: String_int_def digits.simps)

lemmas world_defs = run_def boot_def constructor_def start_def start_private_def start_resume_def
  start_dirs_def start_spawn_def ensure_dir_def spawn_args_def on_startup_timeout_def on_stdout_data_def on_stderr_data_def
  on_error_def on_exit_def doReject_def doResolve_def cleanup_def stop_def stop_exit_def
  stop_timeout_def exit_listeners_def reject_def resolve_def settle_def or_string_def
  or_number_def Let_def step.simps

lemma starting_eq:
  "starting =
     \<lparr>this = \<lparr>process = Some 0,
              config = \<lparr>enabled = True, mongodPath = ''mongod'',
                         dbPath = ''/srv/.mongodb-data'', port = 27017,
                         logPath = ''/srv/logs/mongodb.log'', wiredTigerCacheSizeGB = None\<rparr>,
              isRunning = False, startupPromise = Some 0\<rparr>,
      runtime = example_node, dirs = [''/srv/logs'', ''/srv/.mongodb-data''],
      promises = [Pending], probing = [],
      children = [\<lparr>startupTimeout = Some 30000, resolved = False, settles = 0\<rparr>],
      stops = [],
      trace = [Listen 27017 ''127.0.0.1'', ServerClose, MkdirSync ''/srv/.mongodb-data'',
               MkdirSync ''/srv/logs'',
               Spawn ''mongod'' [''--dbpath'', ''/srv/.mongodb-data'', ''--port'', ''27017'',
                                ''--logpath'', ''/srv/logs/mongodb.log'',
                                ''--bind_ip'', ''127.0.0.1'']]\<rparr>"
  by (simp add: starting_def world_defs String_int_27017 example_node_def example_config_def)

lemma ready_eq:
  "ready = starting\<lparr>this := (this starting)\<lparr>isRunning := True\<rparr>,
                    promises := [Fulfilled],
                    children := [\<lparr>startupTimeout = None, resolved = True, settles = 0\<rparr>],
                    trace := trace starting @ [CallResolve 0]\<rparr>"
  by (simp add: ready_def starting_eq world_defs)

lemma stopping_eq:
  "stopping = ready\<lparr>promises := [Fulfilled, Pending],
                    stops := [\<lparr>target = 0, timeout = Some 5000, listening = True,
                               resolves = 1\<rparr>],
                    trace := trace ready @ [Kill 0 SIGTERM]\<rparr>"
  by (simp add: stopping_def ready_eq starting_eq world_defs)

lemma probing_world_eq:
  "probing_world =
     (boot example_node [] example_config)
       \<lparr>this := (constructor example_node example_config)\<lparr>startupPromise := Some 0\<rparr>,
        promises := [Pending], probing := [0], trace := [Listen 27017 ''127.0.0.1'']\<rparr>"
  by (simp add: probing_world_def world_defs example_config_def)

lemma ready_reachable:
  "ready = run [CallStart, ServerListening 0,
                StdoutData 0 ''NETWORK  [listener] waiting for connections on port 27017'']
             (boot example_node [] example_config)"
  by (simp add: ready_def starting_def run_def)

lemma String_int_27018: "String_int 27018 = ''27018''"
  by (simp add: String_int_def digits.simps)

lemma stopped_facts:
  "this stopped = constructor example_node example_config" "promises stopped = []"
  "trace stopped = []" "children stopped = []" "spawned stopped = 0"
  "this read_only = constructor example_node example_config" "promises read_only = []"
  "trace read_only = []" "children read_only = []" "spawned read_only = 0"
  "probing stopped = []" "probing read_only = []" "dirs stopped = []" "dirs read_only = []"
  "runtime stopped = example_node" "runtime read_only = read_only_node"
  by (simp_all add: stopped_def read_only_def boot_def spawned_def constructor_def
        read_only_node_def example_node_def)

lemma example_constructed:
  "config (constructor example_node example_config)
      = \<lparr>enabled = True, mongodPath = ''mongod'', dbPath = ''/srv/.mongodb-data'', port = 27017,
         logPath = ''/srv/logs/mongodb.log'', wiredTigerCacheSizeGB = None\<rparr>"
  "startupPromise (constructor example_node example_config) = None"
  "\<not> isRunning (constructor example_node example_config)"
  "process (constructor example_node example_config) = None"
  by (simp_all add: constructor_def example_node_def example_config_def or_string_def
        or_number_def)

subsection \<open>The directories and the spawn\<close>

lemma ensure_dir_shape:
  "\<exists>ds xs. snd (ensure_dir d w) = w\<lparr>dirs := ds, trace := trace w @ map MkdirSync xs\<rparr>"
proof (cases "d \<in> set (dirs w) \<or> mkdirSync_throws (runtime w) d \<noteq> None")
  case True
  then have "snd (ensure_dir d w) = w\<lparr>dirs := dirs w, trace := trace w @ map MkdirSync []\<rparr>"
    by (auto simp: ensure_dir_def)
  then show ?thesis by blast
next
  case False
  then have "snd (ensure_dir d w) = w\<lparr>dirs := d # dirs w, trace := trace w @ map MkdirSync [d]\<rparr>"
    by (auto simp: ensure_dir_def)
  then show ?thesis by blast
qed

lemma start_dirs_shape:
  "\<exists>ds xs. snd (start_dirs w) = w\<lparr>dirs := ds, trace := trace w @ map MkdirSync xs\<rparr>"
proof -
  let ?d1 = "dbPath (config (this w))"
  let ?d2 = "path_dirname (runtime w) (logPath (config (this w)))"
  obtain ds xs where 1: "snd (ensure_dir ?d1 w) = w\<lparr>dirs := ds, trace := trace w @ map MkdirSync xs\<rparr>"
    using ensure_dir_shape by blast
  show ?thesis
  proof (cases "fst (ensure_dir ?d1 w)")
    case (Some e)
    then have "snd (start_dirs w) = snd (ensure_dir ?d1 w)"
      by (cases "ensure_dir ?d1 w") (simp add: start_dirs_def)
    then show ?thesis using 1 by auto
  next
    case None
    let ?w1 = "snd (ensure_dir ?d1 w)"
    obtain ds' ys where 2: "snd (ensure_dir ?d2 ?w1)
        = ?w1\<lparr>dirs := ds', trace := trace ?w1 @ map MkdirSync ys\<rparr>"
      using ensure_dir_shape by blast
    have "snd (start_dirs w) = snd (ensure_dir ?d2 ?w1)"
      using None by (cases "ensure_dir ?d1 w") (simp add: start_dirs_def)
    then have "snd (start_dirs w) = w\<lparr>dirs := ds', trace := trace w @ map MkdirSync (xs @ ys)\<rparr>"
      using 1 2 by simp
    then show ?thesis by blast
  qed
qed

lemma start_resume_cases:
  obtains (spawn) ds xs where "dirs_ready w"
      "start_resume p w = start_spawn p (w\<lparr>dirs := ds, trace := trace w @ map MkdirSync xs\<rparr>)"
  | (throw) e ds xs where "fst (start_dirs w) = Some e"
      "start_resume p w = w\<lparr>dirs := ds, trace := trace w @ map MkdirSync xs,
                             promises := settle p (Rejected e) (promises w)\<rparr>"
      "\<not> dirs_ready w"
proof -
  obtain ds xs where sh: "snd (start_dirs w) = w\<lparr>dirs := ds, trace := trace w @ map MkdirSync xs\<rparr>"
    using start_dirs_shape by blast
  show thesis
  proof (cases "fst (start_dirs w)")
    case None
    then have "start_resume p w = start_spawn p (snd (start_dirs w))"
      by (cases "start_dirs w") (simp add: start_resume_def)
    then have "start_resume p w
        = start_spawn p (w\<lparr>dirs := ds, trace := trace w @ map MkdirSync xs\<rparr>)"
      by (simp only: sh)
    moreover have "dirs_ready w" using None by (simp add: dirs_ready_def)
    ultimately show thesis using spawn by blast
  next
    case (Some e)
    then have "start_resume p w
        = (snd (start_dirs w))\<lparr>promises := settle p (Rejected e) (promises (snd (start_dirs w)))\<rparr>"
      by (cases "start_dirs w") (simp add: start_resume_def)
    then have "start_resume p w = w\<lparr>dirs := ds, trace := trace w @ map MkdirSync xs,
                             promises := settle p (Rejected e) (promises w)\<rparr>"
      by (simp add: sh)
    moreover have "\<not> dirs_ready w" using Some by (simp add: dirs_ready_def)
    ultimately show thesis using throw Some by blast
  qed
qed

lemma dirs_ready_cong [simp]:
  "dirs_ready (w\<lparr>probing := ps, trace := t\<rparr>) = dirs_ready w"
  by (simp add: dirs_ready_def start_dirs_def ensure_dir_def split: option.splits)

lemma no_settle_mkdirs [simp]:
  "filter (\<lambda>e. case e of CallResolve q \<Rightarrow> q = p | CallReject q x \<Rightarrow> q = p | _ \<Rightarrow> False)
     (map MkdirSync xs) = []"
  by (induction xs) simp_all

lemma no_spawn_mkdirs [simp]:
  "filter (\<lambda>e. case e of Spawn a b \<Rightarrow> True | _ \<Rightarrow> False) (map MkdirSync xs) = []"
  by (induction xs) simp_all

lemma no_calls_mkdirs [simp]:
  "CallResolve q \<notin> set (map MkdirSync xs)" "CallReject q x \<notin> set (map MkdirSync xs)"
  by auto

lemma fst_start_dirs:
  "fst (start_dirs w) =
     (if dbPath (config (this w)) \<notin> set (dirs w)
         \<and> mkdirSync_throws (runtime w) (dbPath (config (this w))) \<noteq> None
      then mkdirSync_throws (runtime w) (dbPath (config (this w)))
      else if path_dirname (runtime w) (logPath (config (this w))) \<in> set (dirs w)
              \<or> path_dirname (runtime w) (logPath (config (this w))) = dbPath (config (this w))
      then None
      else mkdirSync_throws (runtime w) (path_dirname (runtime w) (logPath (config (this w)))))"
  by (auto simp: start_dirs_def ensure_dir_def split: option.splits)

lemma start_dirs_fst_cong:
  "dirs v = dirs w \<Longrightarrow> runtime v = runtime w \<Longrightarrow> config (this v) = config (this w)
   \<Longrightarrow> fst (start_dirs v) = fst (start_dirs w)"
  by (simp add: fst_start_dirs)

lemma example_dirs:
  "fst (start_dirs stopped) = None"
  "fst (start_dirs read_only)
     = Some (Error ''EACCES: permission denied, mkdir /srv/.mongodb-data'')"
  by (simp_all add: fst_start_dirs stopped_facts example_constructed)
     (simp_all add: read_only_node_def example_node_def)

subsection \<open>The configuration is never written\<close>

lemma config_resolve [simp]: "config (this (resolve p w)) = config (this w)"
  by (simp add: resolve_def)

lemma config_reject [simp]: "config (this (reject p e w)) = config (this w)"
  by (simp add: reject_def)

lemma config_stop [simp]: "config (this (snd (stop w))) = config (this w)"
  by (simp add: stop_def split: option.splits)

lemma config_doResolve [simp]: "config (this (doResolve c w)) = config (this w)"
  by (simp add: doResolve_def cleanup_def Let_def)

lemma config_doReject [simp]: "config (this (doReject c e w)) = config (this w)"
  by (simp add: doReject_def cleanup_def Let_def)

lemma config_stop_exit [simp]: "config (this (stop_exit i w)) = config (this w)"
  by (simp add: stop_exit_def)

lemma config_stop_timeout [simp]: "config (this (stop_timeout i w)) = config (this w)"
  by (simp add: stop_timeout_def split: option.splits)

lemma config_fold_stop_exit [simp]: "config (this (fold stop_exit js w)) = config (this w)"
  by (induction js arbitrary: w) simp_all

lemma config_start_resume [simp]: "config (this (start_resume p w)) = config (this w)"
  by (cases rule: start_resume_cases [of w p]) (simp_all add: start_spawn_def)

lemma config_start [simp]: "config (this (snd (start w))) = config (this w)"
  by (simp add: start_def start_private_def split: option.splits)

lemma config_step: "config (this (step e w)) = config (this w)"
  by (cases e)
     (simp_all add: step.simps on_stdout_data_def on_stderr_data_def on_error_def on_exit_def
        on_startup_timeout_def Let_def)

lemma config_run: "config (this (run es w)) = config (this w)"
  unfolding run_def by (induction es arbitrary: w) (simp_all add: config_step)

subsection \<open>The connection URI\<close>

lemma below_ten:
  assumes "(d::nat) < 10"
  obtains "d = 0" | "d = 1" | "d = 2" | "d = 3" | "d = 4" | "d = 5" | "d = 6" | "d = 7"
    | "d = 8" | "d = 9"
proof -
  have "d \<in> set [0..<10]" using assms by simp
  then have "d = 0 \<or> d = 1 \<or> d = 2 \<or> d = 3 \<or> d = 4 \<or> d = 5 \<or> d = 6 \<or> d = 7
      \<or> d = 8 \<or> d = 9"
    unfolding upt_rec_numeral by auto
  then show thesis using that by blast
qed

lemma digit_value_nth: "d < 10 \<Longrightarrow> digit_value (''0123456789'' ! d) = Some d"
  by (erule below_ten) (simp_all add: digit_value_def)

lemma digit_not_minus: "d < 10 \<Longrightarrow> ''0123456789'' ! d \<noteq> CHR ''-''"
  by (erule below_ten) simp_all

lemma digit_zero: "d < 10 \<Longrightarrow> (''0123456789'' ! d = CHR ''0'') = (d = 0)"
  by (erule below_ten) simp_all

lemma read_digits_snoc:
  "read_digits a (s @ [ch]) =
     (case read_digits a s of None \<Rightarrow> None
      | Some m \<Rightarrow> (case digit_value ch of None \<Rightarrow> None | Some d \<Rightarrow> Some (10 * m + d)))"
  by (induction s arbitrary: a) (simp_all split: option.splits)

lemma digits_nonempty: "digits n \<noteq> []"
  by (subst digits.simps) simp

lemma read_digits_digits: "read_digits 0 (digits n) = Some n"
proof (induction n rule: digits.induct)
  case (1 n)
  show ?case
  proof (cases "n < 10")
    case True
    then show ?thesis by (subst digits.simps) (simp add: digit_value_nth)
  next
    case False
    then have "read_digits 0 (digits (n div 10)) = Some (n div 10)" using 1 by simp
    then show ?thesis
      using False by (subst digits.simps) (simp add: read_digits_snoc digit_value_nth)
  qed
qed

lemma hd_digits:
  "hd (digits n) \<noteq> CHR ''-''" "(hd (digits n) = CHR ''0'') = (n = 0)"
proof (induction n rule: digits.induct)
  case (1 n)
  {
    case 1
    show ?case
    proof (cases "n < 10")
      case True
      then show ?thesis by (subst digits.simps) (simp add: digit_not_minus)
    next
      case False
      then show ?thesis
        using "1.IH"(1) by (subst digits.simps) (simp add: digits_nonempty)
    qed
  next
    case 2
    show ?case
    proof (cases "n < 10")
      case True
      then show ?thesis by (subst digits.simps) (simp add: digit_zero)
    next
      case False
      then have "n div 10 \<noteq> 0" by simp
      then show ?thesis
        using False "1.IH"(2) by (subst digits.simps) (auto simp: digits_nonempty)
    qed
  }
qed

lemma tl_digits_zero: "tl (digits 0) = []"
  by (subst digits.simps) simp

lemma read_nat_digits: "read_nat (digits n) = Some n"
  by (cases "n = 0") (simp_all add: read_nat_def digits_nonempty hd_digits tl_digits_zero read_digits_digits)

lemma read_int_String_int: "read_int (String_int i) = Some i"
  by (simp add: read_int_def String_int_def read_nat_digits digits_nonempty hd_digits)

lemma getConnectionUri_run:
  "getConnectionUri (this (run es w)) = getConnectionUri (this w)"
  by (simp add: getConnectionUri_def config_run)

text \<open>
  C9. Take any world a freshly constructed controller can reach, whatever the events
  so far. If the caller's configuration gave a port \<open>n\<close> that is a safe integer other
  than zero, \<^verbatim>\<open>getConnectionUri()\<close> is \<^verbatim>\<open>mongodb://127.0.0.1:\<close> followed by a string that
  reads, as a decimal numeral, as \<open>n\<close>. If it gave no port, or zero, the result is
  \<^verbatim>\<open>mongodb://127.0.0.1:27017\<close>. The result is a total function of the instance, and no
  further event changes it.
\<close>

theorem getConnectionUri_of_port:
  assumes "w = run es (boot nd ds c)"
  shows "(MongoSubprocessConfig.port c = Some n \<and> n \<noteq> 0 \<and> safe_integer n \<longrightarrow>
            take 20 (getConnectionUri (this w)) = ''mongodb://127.0.0.1:''
            \<and> read_int (drop 20 (getConnectionUri (this w))) = Some n)
     \<and> (MongoSubprocessConfig.port c = None \<or> MongoSubprocessConfig.port c = Some 0 \<longrightarrow>
            getConnectionUri (this w) = ''mongodb://127.0.0.1:27017'')
     \<and> getConnectionUri (this (run fs w)) = getConnectionUri (this w)"
proof -
  have u: "getConnectionUri (this w)
      = ''mongodb://127.0.0.1:'' @ String_int (or_number (MongoSubprocessConfig.port c) 27017)"
    unfolding assms getConnectionUri_run by (simp add: getConnectionUri_def boot_def constructor_def)
  show ?thesis
    unfolding getConnectionUri_run u
    by (auto simp: or_number_def read_int_String_int String_int_27017)
qed

text \<open>
  C9 at three controllers: one constructed with port 27018, after \<^verbatim>\<open>start()\<close> and a
  successful probe; the running controller of the concrete run; the fresh one.
\<close>

theorem getConnectionUri_of_port_witness:
  "MongoSubprocessConfig.port other_port = Some 27018 \<and> safe_integer 27018
   \<and> take 20 (getConnectionUri (this (run [CallStart, ServerListening 0]
                                        (boot example_node [] other_port))))
       = ''mongodb://127.0.0.1:''
   \<and> read_int (drop 20 (getConnectionUri (this (run [CallStart, ServerListening 0]
                                                   (boot example_node [] other_port)))))
       = Some 27018
   \<and> getConnectionUri (this (boot example_node [] other_port)) = ''mongodb://127.0.0.1:27018''
   \<and> read_int ''27018'' = Some 27018
   \<and> MongoSubprocessConfig.port example_config = None
   \<and> getConnectionUri (this ready) = ''mongodb://127.0.0.1:27017''
   \<and> getConnectionUri (this stopped) = ''mongodb://127.0.0.1:27017''"
proof -
  have h: "MongoSubprocessConfig.port other_port = Some 27018" "safe_integer 27018"
    "MongoSubprocessConfig.port example_config = None"
    by (simp_all add: other_port_def example_config_def safe_integer_def)
  have a: "getConnectionUri (this (boot example_node [] other_port)) = ''mongodb://127.0.0.1:27018''"
    by (simp add: getConnectionUri_def boot_def constructor_def other_port_def or_number_def
          String_int_27018)
  have b: "read_int ''27018'' = Some 27018"
    by (simp add: read_int_def read_nat_def digit_value_def)
  show ?thesis
    using getConnectionUri_of_port [where es = "[CallStart, ServerListening 0]"
        and nd = example_node and ds = "[]" and c = other_port and n = 27018 and fs = "[]", OF refl]
      getConnectionUri_of_port [OF ready_reachable, where n = 0 and fs = "[]"]
      getConnectionUri_of_port [where w = stopped and es = "[]" and nd = example_node
        and ds = "[]" and c = example_config and n = 0 and fs = "[]"]
      h a b
    by (simp add: stopped_def run_def)
qed

subsection \<open>start while a startup is pending\<close>

lemma start_pending:
  "enabled (config (this w)) \<Longrightarrow> startupPromise (this w) = Some p \<Longrightarrow> start w = (Awaits p, w)"
  by (simp add: start_def)

lemma run_starts_pending:
  "enabled (config (this w)) \<Longrightarrow> startupPromise (this w) = Some p
   \<Longrightarrow> run (replicate n CallStart) w = w"
  unfolding run_def by (induction n) (simp_all add: step.simps start_pending)

lemma run_append: "run (es @ fs) w = run fs (run es w)"
  by (simp add: run_def)

lemma spawned_listening:
  assumes "p \<in> set (probing w)"
  shows "spawned (step (ServerListening p) w) = spawned w + (if dirs_ready w then 1 else 0)"
proof -
  let ?w1 = "w\<lparr>probing := removeAll p (probing w), trace := trace w @ [ServerClose]\<rparr>"
  have "spawned (start_resume p ?w1) = spawned w + (if dirs_ready w then 1 else 0)"
  proof (cases rule: start_resume_cases [of ?w1 p])
    case (spawn ds xs)
    then show ?thesis by (simp add: start_spawn_def spawned_def)
  next
    case (throw e ds xs)
    then show ?thesis by (simp add: spawned_def)
  qed
  then show ?thesis using assms by (simp add: step.simps)
qed

lemma startupPromise_listening:
  "startupPromise (this (step (ServerListening p) w)) = startupPromise (this w)"
proof -
  have "startupPromise (this (start_resume p v)) = startupPromise (this v)" for v
    by (cases rule: start_resume_cases [of v p]) (simp_all add: start_spawn_def)
  then show ?thesis by (simp add: step.simps)
qed

lemma spawned_server_error: "spawned (step (ServerError p err) w) = spawned w"
  by (simp add: step.simps spawned_def)

lemma startupPromise_server_error:
  "startupPromise (this (step (ServerError p err) w)) = startupPromise (this w)"
  by (simp add: step.simps)

text \<open>
  C4 as stated fails where the startup in flight spawns no process at all. In the
  concrete run with the port probe in flight, a second \<^verbatim>\<open>start()\<close> returns the same
  promise; the probe then reports \<^verbatim>\<open>EADDRINUSE\<close>, the promise is rejected, and the
  number of processes spawned is zero, not one.
\<close>

theorem port_in_use_spawns_nothing:
  "startupPromise (this probing_world) = Some 0
   \<and> promises probing_world ! 0 = Pending
   \<and> start probing_world = (Awaits 0, probing_world)
   \<and> promises (run [CallStart,
                     ServerError 0 \<lparr>code = Some ''EADDRINUSE'',
                                     message = ''listen EADDRINUSE: address already in use''\<rparr>]
                  probing_world)
       = [Rejected (Error ''Port 27017 is already in use. Cannot start MongoDB subprocess.'')]
   \<and> spawned (run [CallStart,
                    ServerError 0 \<lparr>code = Some ''EADDRINUSE'',
                                    message = ''listen EADDRINUSE: address already in use''\<rparr>]
                 probing_world) = 0"
  by (simp add: probing_world_eq world_defs spawned_def checkPortAvailable_error_def
        String_int_27017 example_config_def example_node_def)

text \<open>
  C4, amended. On a controller with a startup in flight (it is enabled and
  \<^verbatim>\<open>startupPromise\<close> holds promise \<open>p\<close>), \<^verbatim>\<open>start()\<close> returns a promise that takes the
  state of \<open>p\<close> and changes nothing, and so do any number of calls: \<^verbatim>\<open>start()\<close> spawns
  nothing while \<^verbatim>\<open>startupPromise\<close> is set. If the run of \<^verbatim>\<open>_start\<close> is still waiting for
  the port probe, then however many calls of \<^verbatim>\<open>start()\<close> come before and after the
  probe's answer: when the probe succeeds, one process is spawned if the two
  directories exist or can be made, and none if \<^verbatim>\<open>mkdirSync\<close> throws; when the probe
  fails, none is spawned.
\<close>

theorem start_joins_pending_startup:
  assumes "enabled (config (this w))" and "startupPromise (this w) = Some p"
  shows "start w = (Awaits p, w)
     \<and> run (replicate n CallStart) w = w
     \<and> (p \<in> set (probing w) \<longrightarrow>
          spawned (run (replicate n CallStart @ ServerListening p # replicate m CallStart) w)
            = spawned w + (if dirs_ready w then 1 else 0)
          \<and> spawned (run (replicate n CallStart @ ServerError p err # replicate m CallStart) w)
            = spawned w)"
proof -
  let ?v = "step (ServerListening p) w"
  let ?u = "step (ServerError p err) w"
  have e: "enabled (config (this ?v))" "enabled (config (this ?u))"
    using assms(1) by (simp_all add: config_step)
  have s: "startupPromise (this ?v) = Some p" "startupPromise (this ?u) = Some p"
    using assms(2) by (simp_all add: startupPromise_listening startupPromise_server_error)
  have "run (replicate n CallStart @ ServerListening p # replicate m CallStart) w = ?v"
    using run_starts_pending [OF assms] run_starts_pending [OF e(1) s(1)]
    by (simp add: run_append) (simp add: run_def)
  moreover have "run (replicate n CallStart @ ServerError p err # replicate m CallStart) w = ?u"
    using run_starts_pending [OF assms] run_starts_pending [OF e(2) s(2)]
    by (simp add: run_append) (simp add: run_def)
  ultimately show ?thesis
    using assms
    by (simp add: start_pending run_starts_pending spawned_listening spawned_server_error)
qed

text \<open>
  C4, amended, at the concrete run and at the controller whose directories cannot be
  made: two calls of \<^verbatim>\<open>start()\<close>, the probe's answer, three more calls.
\<close>

theorem start_joins_pending_startup_witness:
  "enabled (config (this probing_world)) \<and> startupPromise (this probing_world) = Some 0
   \<and> 0 \<in> set (probing probing_world) \<and> dirs_ready probing_world
   \<and> start probing_world = (Awaits 0, probing_world)
   \<and> spawned (run (replicate 2 CallStart @ ServerListening 0 # replicate 3 CallStart)
                 probing_world) = 1
   \<and> spawned (run (replicate 2 CallStart
                     @ ServerError 0 \<lparr>code = Some ''EADDRINUSE'',
                                       message = ''listen EADDRINUSE: address already in use''\<rparr>
                       # replicate 3 CallStart)
                 probing_world) = 0
   \<and> enabled (config (this probing_read_only))
   \<and> startupPromise (this probing_read_only) = Some 0
   \<and> 0 \<in> set (probing probing_read_only) \<and> \<not> dirs_ready probing_read_only
   \<and> spawned (run (replicate 2 CallStart @ ServerListening 0 # replicate 3 CallStart)
                 probing_read_only) = 0"
proof -
  have h: "enabled (config (this probing_world))" "startupPromise (this probing_world) = Some 0"
    by (simp_all add: probing_world_eq example_constructed)
  have h3: "0 \<in> set (probing probing_world)" "spawned probing_world = 0"
    by (simp_all add: probing_world_eq spawned_def)
  have h4: "dirs_ready probing_world"
    by (simp add: dirs_ready_def fst_start_dirs probing_world_eq boot_def example_constructed)
       (simp add: example_node_def)
  have q: "probing_read_only =
     read_only\<lparr>this := (constructor example_node example_config)\<lparr>startupPromise := Some 0\<rparr>,
               promises := [Pending], probing := [0], trace := [Listen 27017 ''127.0.0.1'']\<rparr>"
    by (simp add: probing_read_only_def step.simps start_def start_private_def stopped_facts
          example_constructed)
  have g: "enabled (config (this probing_read_only))"
    "startupPromise (this probing_read_only) = Some 0"
    by (simp_all add: q example_constructed)
  have g3: "0 \<in> set (probing probing_read_only)" "spawned probing_read_only = 0"
    by (simp_all add: q spawned_def stopped_facts [unfolded spawned_def])
  have g4: "\<not> dirs_ready probing_read_only"
    by (simp add: dirs_ready_def fst_start_dirs q stopped_facts example_constructed)
       (simp add: read_only_node_def example_node_def)
  show ?thesis
    using start_joins_pending_startup [OF h, of 2 3
        "\<lparr>code = Some ''EADDRINUSE'',
          message = ''listen EADDRINUSE: address already in use''\<rparr>"]
      start_joins_pending_startup [OF g, of 2 3
        "\<lparr>code = Some ''EADDRINUSE'',
          message = ''listen EADDRINUSE: address already in use''\<rparr>"]
      h h3 h4 g g3 g4
    by simp
qed

subsection \<open>The cleanup of a failed startup\<close>

text \<open>
  C2, at the startup timeout of the concrete run. The claim has the process killed and
  the handle cleared. The code: \<^verbatim>\<open>doReject\<close> calls \<^verbatim>\<open>this.stop()\<close>, whose guard returns
  because \<^verbatim>\<open>isRunning\<close> is false; the instance is as before (the handle is still
  process 0), the promise is rejected, and the only effect is the call of
  \<^verbatim>\<open>reject\<close>: no \<^verbatim>\<open>kill\<close>.
\<close>

theorem startup_timeout_leaves_process:
  "this (step (StartupTimeout 0) starting) = this starting
   \<and> process (this starting) = Some 0
   \<and> promises (step (StartupTimeout 0) starting)
       = [Rejected (Error ''MongoDB subprocess startup timeout (30s)'')]
   \<and> trace (step (StartupTimeout 0) starting)
       = trace starting @ [CallReject 0 (Error ''MongoDB subprocess startup timeout (30s)'')]"
  by (simp add: starting_eq world_defs)

subsection \<open>The arguments of the spawned binary\<close>

text \<open>
  C6, at a configuration that asks for a cache of half a gigabyte. The claim has
  \<^verbatim>\<open>--wiredTigerCacheSizeGB\<close> among the arguments. The code: the constructor does not
  copy the field, and the process is spawned with the four other options only.
\<close>

theorem cache_size_flag_dropped:
  "MongoSubprocessConfig.wiredTigerCacheSizeGB example_config = Some (1 / 2)
   \<and> trace starting =
      [Listen 27017 ''127.0.0.1'', ServerClose, MkdirSync ''/srv/.mongodb-data'',
       MkdirSync ''/srv/logs'',
       Spawn ''mongod'' [''--dbpath'', ''/srv/.mongodb-data'', ''--port'', ''27017'',
                        ''--logpath'', ''/srv/logs/mongodb.log'', ''--bind_ip'', ''127.0.0.1'']]"
  by (simp add: starting_eq example_config_def)

subsection \<open>What an event leaves alone\<close>


lemma sole_settler_iff:
  "sole_settler c p w =
     (c < length (children w) \<and> settles (children w ! c) = p \<and> p < length (promises w)
      \<and> (\<forall>d < length (children w). d \<noteq> c \<longrightarrow> settles (children w ! d) \<noteq> p)
      \<and> (\<forall>s \<in> set (stops w). resolves s \<noteq> p)
      \<and> p \<notin> set (probing w))"
  by (auto simp: sole_settler_def list_all_iff)

lemma untouched_refl: "sole_settler c p w \<Longrightarrow> untouched c p w w"
  by (simp add: untouched_def)

lemma untouched_trans:
  "untouched c p w v \<Longrightarrow> untouched c p v u \<Longrightarrow> untouched c p w u"
  by (simp add: untouched_def)

lemma untouched_this:
  "untouched c p w v \<Longrightarrow> untouched c p w (v\<lparr>this := t\<rparr>)"
  by (auto simp: untouched_def sole_settler_iff settlements_def)

lemma length_settle [simp]: "length (settle q st ps) = length ps"
  by (simp add: settle_def)

lemma nth_settle_other [simp]: "q \<noteq> p \<Longrightarrow> settle q st ps ! p = ps ! p"
  by (simp add: settle_def)

lemma untouched_resolve:
  "sole_settler c p w \<Longrightarrow> q \<noteq> p \<Longrightarrow> untouched c p w (resolve q w)"
  by (simp add: untouched_def sole_settler_iff resolve_def settlements_def)

lemma untouched_reject:
  "sole_settler c p w \<Longrightarrow> q \<noteq> p \<Longrightarrow> untouched c p w (reject q e w)"
  by (simp add: untouched_def sole_settler_iff reject_def settlements_def)

lemma untouched_stop:
  "sole_settler c p w \<Longrightarrow> untouched c p w (snd (stop w))"
  by (auto simp: untouched_def sole_settler_iff stop_def settlements_def nth_append
           split: option.splits)

lemma untouched_stop_timeout:
  "sole_settler c p w \<Longrightarrow> i < length (stops w) \<Longrightarrow> untouched c p w (stop_timeout i w)"
  by (auto simp: untouched_def sole_settler_iff stop_timeout_def resolve_def settlements_def
           split: option.splits)

lemma untouched_stop_exit:
  "sole_settler c p w \<Longrightarrow> i < length (stops w) \<Longrightarrow> untouched c p w (stop_exit i w)"
  by (auto simp: untouched_def sole_settler_iff stop_exit_def resolve_def settlements_def
           dest!: set_update_subset_insert [THEN subsetD])

lemma length_stops_stop_exit [simp]: "length (stops (stop_exit i w)) = length (stops w)"
  by (simp add: stop_exit_def resolve_def)

lemma untouched_fold_stop_exit:
  "sole_settler c p w \<Longrightarrow> \<forall>i \<in> set js. i < length (stops w)
   \<Longrightarrow> untouched c p w (fold stop_exit js w)"
proof (induction js arbitrary: w)
  case Nil
  then show ?case by (simp add: untouched_refl)
next
  case (Cons j js)
  have a: "untouched c p w (stop_exit j w)"
    using Cons.prems by (simp add: untouched_stop_exit)
  then have "sole_settler c p (stop_exit j w)" by (simp add: untouched_def)
  then have "untouched c p (stop_exit j w) (fold stop_exit js (stop_exit j w))"
    using Cons.prems by (intro Cons.IH) simp_all
  with a show ?case by (simp add: untouched_trans)
qed

lemma exit_listeners_bound: "\<forall>i \<in> set (exit_listeners c w). i < length (stops w)"
  by (simp add: exit_listeners_def)

lemma untouched_doResolve:
  "sole_settler c p w \<Longrightarrow> d < length (children w) \<Longrightarrow> d \<noteq> c \<Longrightarrow> untouched c p w (doResolve d w)"
  by (simp add: untouched_def sole_settler_iff doResolve_def cleanup_def resolve_def
        settlements_def Let_def nth_list_update)

lemma untouched_doReject:
  assumes "sole_settler c p w" "d < length (children w)" "d \<noteq> c"
  shows "untouched c p w (doReject d e w)"
proof (cases "resolved (children w ! d)")
  case True
  then show ?thesis using assms by (simp add: doReject_def untouched_refl)
next
  case False
  let ?w2 = "w\<lparr>children := (children w)[d := (children w ! d)\<lparr>resolved := True,
                  startupTimeout := None\<rparr>]\<rparr>"
  have s2: "sole_settler c p ?w2" and u2: "untouched c p w ?w2"
    using assms by (simp_all add: untouched_def sole_settler_iff settlements_def nth_list_update)
  have u3: "untouched c p ?w2 (snd (stop ?w2))" using s2 by (rule untouched_stop)
  then have s3: "sole_settler c p (snd (stop ?w2))" by (simp add: untouched_def)
  have q: "settles (children (snd (stop ?w2)) ! d) \<noteq> p"
    using assms by (simp add: stop_def sole_settler_iff split: option.splits)
  have "doReject d e w = reject (settles (children (snd (stop ?w2)) ! d)) e (snd (stop ?w2))"
    using False assms(2) by (simp add: doReject_def cleanup_def Let_def)
  then show ?thesis
    using untouched_reject [OF s3 q, of e] u3 u2 by (auto intro: untouched_trans)
qed


subsection \<open>Events that are not signals of the attempt\<close>

lemma untouched_start:
  "sole_settler c p w \<Longrightarrow> untouched c p w (snd (start w))"
  by (auto simp: untouched_def sole_settler_iff start_def start_private_def settlements_def
        nth_append split: option.splits)

lemma untouched_start_resume:
  "sole_settler c p w \<Longrightarrow> q \<noteq> p \<Longrightarrow> untouched c p w (start_resume q w)"
  by (cases rule: start_resume_cases [of w q])
     (auto simp: untouched_def sole_settler_iff start_spawn_def settlements_def nth_append)

lemma untouched_on_exit:
  assumes "sole_settler c p w" "d < length (children w)" "d \<noteq> c"
  shows "untouched c p w (on_exit d k w)"
proof -
  let ?w1 = "w\<lparr>this := (this w)\<lparr>isRunning := False, process := None\<rparr>\<rparr>"
  have u1: "untouched c p w ?w1" using assms(1) by (simp add: untouched_refl untouched_this)
  then have s1: "sole_settler c p ?w1" by (simp add: untouched_def)
  have "untouched c p ?w1 (doReject d e ?w1)" for e
    using s1 assms by (intro untouched_doReject) simp_all
  with u1 show ?thesis
    by (auto simp: on_exit_def Let_def intro: untouched_trans)
qed

lemma untouched_other:
  assumes "sole_settler c p w" "\<not> is_signal c e" "\<not> is_chunk c e"
  shows "untouched c p w (step e w)"
proof (cases e)
  case CallStart
  then show ?thesis using assms by (simp add: step.simps untouched_start)
next
  case CallStop
  then show ?thesis using assms by (simp add: step.simps untouched_stop)
next
  case (ServerListening q)
  show ?thesis
  proof (cases "q \<in> set (probing w)")
    case True
    let ?w1 = "w\<lparr>probing := removeAll q (probing w), trace := trace w @ [ServerClose]\<rparr>"
    have qp: "q \<noteq> p" using True assms(1) by (auto simp: sole_settler_iff)
    have u1: "untouched c p w ?w1"
      using assms(1) by (auto simp: untouched_def sole_settler_iff settlements_def)
    then have "sole_settler c p ?w1" by (simp add: untouched_def)
    then have "untouched c p ?w1 (start_resume q ?w1)" using qp by (rule untouched_start_resume)
    with u1 show ?thesis
      using True ServerListening by (simp add: step.simps) (rule untouched_trans)
  next
    case False
    then show ?thesis using assms ServerListening by (simp add: step.simps untouched_refl)
  qed
next
  case (ServerError q err)
  show ?thesis
  proof (cases "q \<in> set (probing w)")
    case True
    then have "q \<noteq> p" using assms(1) by (auto simp: sole_settler_iff)
    then show ?thesis
      using assms(1) True ServerError
      by (auto simp: step.simps untouched_def sole_settler_iff settlements_def)
  next
    case False
    then show ?thesis using assms ServerError by (simp add: step.simps untouched_refl)
  qed
next
  case (StdoutData d out)
  then show ?thesis
    using assms by (simp add: step.simps on_stdout_data_def untouched_doResolve untouched_refl)
next
  case (StderrData d out)
  then show ?thesis
    using assms by (simp add: step.simps on_stderr_data_def untouched_doResolve untouched_refl)
next
  case (ChildError d msg)
  then show ?thesis
    using assms by (simp add: step.simps on_error_def untouched_doReject untouched_refl)
next
  case (ChildExit d k)
  show ?thesis
  proof (cases "d < length (children w)")
    case True
    have dc: "d \<noteq> c" using assms(2) ChildExit by simp
    have u1: "untouched c p w (on_exit d k w)"
      using assms(1) True dc by (rule untouched_on_exit)
    then have s1: "sole_settler c p (on_exit d k w)" by (simp add: untouched_def)
    have len: "length (stops w) \<le> length (stops (on_exit d k w))"
      by (simp add: on_exit_def doReject_def cleanup_def reject_def stop_def Let_def
            split: option.splits)
    have "\<forall>i \<in> set (exit_listeners d w). i < length (stops (on_exit d k w))"
      using exit_listeners_bound [of d w] len by auto
    then have "untouched c p (on_exit d k w) (fold stop_exit (exit_listeners d w) (on_exit d k w))"
      using s1 by (intro untouched_fold_stop_exit)
    with u1 show ?thesis
      using True ChildExit by (simp add: step.simps) (rule untouched_trans)
  next
    case False
    then show ?thesis using assms ChildExit by (simp add: step.simps untouched_refl)
  qed
next
  case (StartupTimeout d)
  show ?thesis
  proof (cases "d < length (children w) \<and> startupTimeout (children w ! d) \<noteq> None")
    case True
    let ?w1 = "w\<lparr>children := (children w)[d := (children w ! d)\<lparr>startupTimeout := None\<rparr>]\<rparr>"
    have dc: "d \<noteq> c" using assms(2) StartupTimeout by simp
    have u1: "untouched c p w ?w1"
      using assms(1) dc True
      by (auto simp: untouched_def sole_settler_iff settlements_def nth_list_update)
    then have "sole_settler c p ?w1" by (simp add: untouched_def)
    then have "untouched c p ?w1 (doReject d e ?w1)" for e
      using True dc by (intro untouched_doReject) simp_all
    with u1 show ?thesis
      using True StartupTimeout
      by (simp add: step.simps on_startup_timeout_def) (rule untouched_trans)
  next
    case False
    then show ?thesis using assms StartupTimeout by (auto simp: step.simps untouched_refl)
  qed
next
  case (StopTimeout i)
  show ?thesis
  proof (cases "i < length (stops w) \<and> timeout (stops w ! i) \<noteq> None")
    case True
    let ?w1 = "w\<lparr>stops := (stops w)[i := (stops w ! i)\<lparr>timeout := None\<rparr>]\<rparr>"
    have u1: "untouched c p w ?w1"
      using assms(1) True
      by (auto simp: untouched_def sole_settler_iff settlements_def
               dest!: set_update_subset_insert [THEN subsetD])
    then have "sole_settler c p ?w1" by (simp add: untouched_def)
    then have "untouched c p ?w1 (stop_timeout i ?w1)"
      using True by (intro untouched_stop_timeout) simp_all
    with u1 show ?thesis
      using True StopTimeout by (simp add: step.simps) (rule untouched_trans)
  next
    case False
    then show ?thesis using assms StopTimeout by (auto simp: step.simps untouched_refl)
  qed
qed

lemma quiet_chunk: "is_chunk c e \<Longrightarrow> \<not> is_signal c e \<Longrightarrow> step e w = w"
  by (cases e) (auto simp: step.simps on_stdout_data_def on_stderr_data_def)


subsection \<open>The first signal, and the signals after it\<close>

lemma untouched_unsettled: "untouched c p w v \<Longrightarrow> unsettled c p w \<Longrightarrow> unsettled c p v"
  by (simp add: untouched_def unsettled_def)

lemma untouched_settled_as: "untouched c p w v \<Longrightarrow> settled_as c p st w \<Longrightarrow> settled_as c p st v"
  by (simp add: untouched_def settled_as_def)

lemma nth_settle_same [simp]:
  "p < length ps \<Longrightarrow> ps ! p = Pending \<Longrightarrow> settle p st ps ! p = st"
  by (simp add: settle_def)

lemma doResolve_own:
  assumes "sole_settler c p w" "\<not> resolved (children w ! c)" "promises w ! p = Pending"
    "settlements p w = 0"
  shows "settled_as c p Fulfilled (doResolve c w)"
  using assms
  by (auto simp: settled_as_def sole_settler_iff doResolve_def cleanup_def resolve_def
        settlements_def Let_def nth_list_update)

lemma doReject_own:
  assumes "sole_settler c p w" "\<not> resolved (children w ! c)" "promises w ! p = Pending"
    "settlements p w = 0"
  shows "settled_as c p (Rejected e) (doReject c e w)"
proof -
  let ?w2 = "w\<lparr>children := (children w)[c := (children w ! c)\<lparr>resolved := True,
                  startupTimeout := None\<rparr>]\<rparr>"
  let ?w3 = "snd (stop ?w2)"
  have s2: "sole_settler c p ?w2"
    using assms(1) by (auto simp: sole_settler_iff nth_list_update)
  have u3: "untouched c p ?w2 ?w3" using s2 by (rule untouched_stop)
  have c: "c < length (children w)" using assms(1) by (simp add: sole_settler_iff)
  have "sole_settler c p ?w3" "resolved (children ?w3 ! c)" "settles (children ?w3 ! c) = p"
    "promises ?w3 ! p = Pending" "settlements p ?w3 = 0"
    using u3 assms c by (auto simp: untouched_def sole_settler_iff settlements_def)
  moreover have "doReject c e w = reject (settles (children ?w3 ! c)) e ?w3"
    using assms(2) c by (simp add: doReject_def cleanup_def Let_def)
  ultimately show ?thesis
    by (auto simp: settled_as_def sole_settler_iff reject_def settlements_def)
qed


lemma exit_own:
  assumes "sole_settler c p w" "length (stops w0) \<le> length (stops w)"
  shows "untouched c p w (fold stop_exit (exit_listeners d w0) w)"
proof -
  have "\<forall>i \<in> set (exit_listeners d w0). i < length (stops w)"
    using exit_listeners_bound [of d w0] assms(2) by auto
  with assms(1) show ?thesis by (rule untouched_fold_stop_exit)
qed

lemma length_stops_doReject: "length (stops w) \<le> length (stops (doReject c e w))"
  by (simp add: doReject_def cleanup_def reject_def stop_def Let_def split: option.splits)

lemma signal_settles:
  assumes "unsettled c p w" "is_signal c e"
  shows "settled_as c p (outcome e) (step e w)"
proof -
  have s: "sole_settler c p w" and r: "\<not> resolved (children w ! c)"
    and t: "startupTimeout (children w ! c) \<noteq> None"
    and pe: "promises w ! p = Pending" and n: "settlements p w = 0"
    using assms(1) by (simp_all add: unsettled_def)
  have c: "c < length (children w)" using s by (simp add: sole_settler_iff)
  show ?thesis
  proof (cases e)
    case (StdoutData d out)
    then show ?thesis
      using assms(2) c doResolve_own [OF s r pe n]
      by (auto simp: step.simps on_stdout_data_def)
  next
    case (StderrData d out)
    then show ?thesis
      using assms(2) c doResolve_own [OF s r pe n]
      by (auto simp: step.simps on_stderr_data_def)
  next
    case (ChildError d msg)
    then show ?thesis
      using assms(2) c doReject_own [OF s r pe n]
      by (simp add: step.simps on_error_def)
  next
    case (ChildExit d k)
    let ?w1 = "w\<lparr>this := (this w)\<lparr>isRunning := False, process := None\<rparr>\<rparr>"
    let ?e = "Error (''MongoDB subprocess exited with code '' @ String_code k
                     @ '' before starting'')"
    have "sole_settler c p ?w1" "\<not> resolved (children ?w1 ! c)" "promises ?w1 ! p = Pending"
      "settlements p ?w1 = 0"
      using s r pe n by (auto simp: sole_settler_iff settlements_def)
    then have a: "settled_as c p (Rejected ?e) (doReject c ?e ?w1)" by (rule doReject_own)
    have x: "on_exit c k w = doReject c ?e ?w1" using r by (simp add: on_exit_def Let_def)
    have "length (stops w) \<le> length (stops (doReject c ?e ?w1))"
      using length_stops_doReject [of ?w1 c ?e] by simp
    then have "untouched c p (on_exit c k w) (fold stop_exit (exit_listeners c w) (on_exit c k w))"
      using a x by (intro exit_own) (simp_all add: settled_as_def)
    then show ?thesis
      using ChildExit assms(2) c a x by (simp add: step.simps untouched_settled_as)
  next
    case (StartupTimeout d)
    let ?w1 = "w\<lparr>children := (children w)[c := (children w ! c)\<lparr>startupTimeout := None\<rparr>]\<rparr>"
    have "sole_settler c p ?w1" "\<not> resolved (children ?w1 ! c)" "promises ?w1 ! p = Pending"
      "settlements p ?w1 = 0"
      using s r pe n c by (auto simp: sole_settler_iff settlements_def nth_list_update)
    then have "settled_as c p (Rejected e') (doReject c e' ?w1)" for e'
      by (rule doReject_own)
    then show ?thesis
      using StartupTimeout assms(2) c t by (simp add: step.simps on_startup_timeout_def)
  qed (use assms(2) in simp_all)
qed

lemma settled_step:
  assumes "settled_as c p st w"
  shows "settled_as c p st (step e w)"
proof (cases "is_signal c e")
  case False
  show ?thesis
  proof (cases "is_chunk c e")
    case True
    then show ?thesis using False assms by (simp add: quiet_chunk)
  next
    case nc: False
    have "sole_settler c p w" using assms by (simp add: settled_as_def)
    then have "untouched c p w (step e w)" using False nc by (rule untouched_other)
    then show ?thesis using assms by (rule untouched_settled_as)
  qed
next
  case True
  have s: "sole_settler c p w" and r: "resolved (children w ! c)"
    using assms by (simp_all add: settled_as_def)
  have c: "c < length (children w)" using s by (simp add: sole_settler_iff)
  show ?thesis
  proof (cases e)
    case (StdoutData d out)
    then show ?thesis
      using True assms r by (auto simp: step.simps on_stdout_data_def doResolve_def)
  next
    case (StderrData d out)
    then show ?thesis
      using True assms r by (auto simp: step.simps on_stderr_data_def doResolve_def)
  next
    case (ChildError d msg)
    then show ?thesis
      using True assms r by (auto simp: step.simps on_error_def doReject_def)
  next
    case (ChildExit d k)
    let ?w1 = "w\<lparr>this := (this w)\<lparr>isRunning := False, process := None\<rparr>\<rparr>"
    have x: "on_exit c k w = ?w1" using r by (simp add: on_exit_def Let_def)
    have u1: "untouched c p w ?w1" using s by (simp add: untouched_refl untouched_this)
    then have "sole_settler c p ?w1" by (simp add: untouched_def)
    then have "untouched c p ?w1 (fold stop_exit (exit_listeners c w) ?w1)"
      by (intro exit_own) simp_all
    with u1 have "untouched c p w (fold stop_exit (exit_listeners c w) ?w1)"
      by (rule untouched_trans)
    then show ?thesis
      using ChildExit True c x assms by (simp add: step.simps untouched_settled_as)
  next
    case (StartupTimeout d)
    let ?w1 = "w\<lparr>children := (children w)[c := (children w ! c)\<lparr>startupTimeout := None\<rparr>]\<rparr>"
    have "settled_as c p st ?w1"
      using assms c by (auto simp: settled_as_def sole_settler_iff settlements_def nth_list_update)
    moreover have "doReject c e' ?w1 = ?w1" for e'
      using r c by (simp add: doReject_def)
    ultimately show ?thesis
      using StartupTimeout True assms by (auto simp: step.simps on_startup_timeout_def)
  qed (use True in simp_all)
qed

lemma unsettled_step:
  assumes "unsettled c p w" "\<not> is_signal c e"
  shows "unsettled c p (step e w)"
proof (cases "is_chunk c e")
  case True
  then show ?thesis using assms by (simp add: quiet_chunk)
next
  case False
  have "sole_settler c p w" using assms(1) by (simp add: unsettled_def)
  then have "untouched c p w (step e w)" using assms(2) False by (rule untouched_other)
  then show ?thesis using assms(1) by (rule untouched_unsettled)
qed

lemma run_Cons: "run (e # es) w = run es (step e w)"
  by (simp add: run_def)

lemma settled_run: "settled_as c p st w \<Longrightarrow> settled_as c p st (run es w)"
  unfolding run_def by (induction es arbitrary: w) (simp_all add: settled_step)

lemma first_signal_decides:
  "unsettled c p w \<Longrightarrow>
     (case find (is_signal c) es of
        None \<Rightarrow> unsettled c p (run es w)
      | Some e \<Rightarrow> settled_as c p (outcome e) (run es w))"
proof (induction es arbitrary: w)
  case Nil
  then show ?case by (simp add: run_def)
next
  case (Cons e es)
  show ?case
  proof (cases "is_signal c e")
    case True
    then have "settled_as c p (outcome e) (step e w)" using Cons.prems by (simp add: signal_settles)
    then have "settled_as c p (outcome e) (run es (step e w))" by (rule settled_run)
    then show ?thesis using True by (simp add: run_def)
  next
    case False
    then have "unsettled c p (step e w)" using Cons.prems by (simp add: unsettled_step)
    then show ?thesis
      using Cons.IH [of "step e w"] False by (simp add: run_Cons split: option.splits)
  qed
qed

subsection \<open>The promise of stop\<close>

lemma stop_owned_iff:
  "stop_owned p w =
     (p < length (promises w) \<and> (\<forall>d < length (children w). settles (children w ! d) \<noteq> p)
      \<and> p \<notin> set (probing w))"
  by (auto simp: stop_owned_def list_all_length)

lemma advanced_refl: "stop_owned p w \<Longrightarrow> advanced p w w"
  by (simp add: advanced_def)

lemma advanced_trans: "advanced p w v \<Longrightarrow> advanced p v u \<Longrightarrow> advanced p w u"
  by (auto simp: advanced_def)

lemma advanced_owned: "advanced p w v \<Longrightarrow> stop_owned p v"
  by (simp add: advanced_def)

lemma nth_settle_Fulfilled:
  "settle q Fulfilled ps ! p = ps ! p \<or> settle q Fulfilled ps ! p = Fulfilled"
  by (simp add: settle_def nth_list_update)

lemma advanced_resolve: "stop_owned p w \<Longrightarrow> advanced p w (resolve q w)"
  using nth_settle_Fulfilled [of q "promises w" p]
  by (auto simp: advanced_def stop_owned_iff resolve_def)

lemma advanced_reject: "stop_owned p w \<Longrightarrow> q \<noteq> p \<Longrightarrow> advanced p w (reject q e w)"
  by (simp add: advanced_def stop_owned_iff reject_def)

lemma advanced_this: "advanced p w v \<Longrightarrow> advanced p w (v\<lparr>this := t\<rparr>)"
  by (simp add: advanced_def stop_owned_iff)

lemma advanced_stop: "stop_owned p w \<Longrightarrow> advanced p w (snd (stop w))"
  by (auto simp: advanced_def stop_owned_iff stop_def nth_append split: option.splits)

lemma advanced_stop_timeout: "stop_owned p w \<Longrightarrow> advanced p w (stop_timeout i w)"
proof -
  assume s: "stop_owned p w"
  have "stop_owned p (w\<lparr>trace := t\<rparr>)" for t using s by (simp add: stop_owned_iff)
  then have "advanced p (w\<lparr>trace := t\<rparr>) (resolve q (w\<lparr>trace := t\<rparr>))" for t q
    by (rule advanced_resolve)
  then show ?thesis
    using advanced_resolve [OF s]
    by (auto simp: stop_timeout_def advanced_def split: option.splits)
qed

lemma advanced_stop_exit: "stop_owned p w \<Longrightarrow> advanced p w (stop_exit i w)"
proof -
  assume s: "stop_owned p w"
  let ?w1 = "w\<lparr>stops := (stops w)[i := (stops w ! i)\<lparr>timeout := None, listening := False\<rparr>],
               this := (this w)\<lparr>isRunning := False, process := None, startupPromise := None\<rparr>\<rparr>"
  have "stop_owned p ?w1" using s by (simp add: stop_owned_iff)
  then have "advanced p ?w1 (resolve q ?w1)" for q by (rule advanced_resolve)
  then show ?thesis by (auto simp: stop_exit_def advanced_def)
qed

lemma advanced_fold_stop_exit: "stop_owned p w \<Longrightarrow> advanced p w (fold stop_exit js w)"
proof (induction js arbitrary: w)
  case Nil
  then show ?case by (simp add: advanced_refl)
next
  case (Cons j js)
  have a: "advanced p w (stop_exit j w)" using Cons.prems by (rule advanced_stop_exit)
  then have "advanced p (stop_exit j w) (fold stop_exit js (stop_exit j w))"
    by (intro Cons.IH) (rule advanced_owned)
  with a show ?case by (simp add: advanced_trans)
qed

lemma advanced_doResolve:
  "stop_owned p w \<Longrightarrow> d < length (children w) \<Longrightarrow> advanced p w (doResolve d w)"
  by (auto simp: advanced_def stop_owned_iff doResolve_def cleanup_def resolve_def Let_def
        nth_list_update)

lemma advanced_doReject:
  assumes "stop_owned p w" "d < length (children w)"
  shows "advanced p w (doReject d e w)"
proof (cases "resolved (children w ! d)")
  case True
  then show ?thesis using assms by (simp add: doReject_def advanced_refl)
next
  case False
  let ?w2 = "w\<lparr>children := (children w)[d := (children w ! d)\<lparr>resolved := True,
                  startupTimeout := None\<rparr>]\<rparr>"
  have u2: "advanced p w ?w2"
    using assms by (auto simp: advanced_def stop_owned_iff nth_list_update)
  have u3: "advanced p ?w2 (snd (stop ?w2))" using u2 by (intro advanced_stop advanced_owned)
  have q: "settles (children (snd (stop ?w2)) ! d) \<noteq> p"
    using assms by (simp add: stop_def stop_owned_iff split: option.splits)
  have "doReject d e w = reject (settles (children (snd (stop ?w2)) ! d)) e (snd (stop ?w2))"
    using False assms(2) by (simp add: doReject_def cleanup_def Let_def)
  then show ?thesis
    using advanced_reject [OF advanced_owned [OF u3] q, of e] u3 u2
    by (auto intro: advanced_trans)
qed

lemma advanced_start: "stop_owned p w \<Longrightarrow> advanced p w (snd (start w))"
  by (auto simp: advanced_def stop_owned_iff start_def start_private_def nth_append
        split: option.splits)

lemma advanced_start_resume:
  "stop_owned p w \<Longrightarrow> q \<noteq> p \<Longrightarrow> advanced p w (start_resume q w)"
  by (cases rule: start_resume_cases [of w q])
     (auto simp: advanced_def stop_owned_iff start_spawn_def nth_append less_Suc_eq)

lemma advanced_on_exit:
  assumes "stop_owned p w" "d < length (children w)"
  shows "advanced p w (on_exit d k w)"
proof -
  let ?w1 = "w\<lparr>this := (this w)\<lparr>isRunning := False, process := None\<rparr>\<rparr>"
  have u1: "advanced p w ?w1" using assms(1) by (simp add: advanced_refl advanced_this)
  have "advanced p ?w1 (doReject d e ?w1)" for e
    using u1 assms(2) by (intro advanced_doReject advanced_owned) simp_all
  with u1 show ?thesis
    by (auto simp: on_exit_def Let_def intro: advanced_trans)
qed

lemma advanced_step:
  assumes "stop_owned p w"
  shows "advanced p w (step e w)"
proof (cases e)
  case CallStart
  then show ?thesis using assms by (simp add: step.simps advanced_start)
next
  case CallStop
  then show ?thesis using assms by (simp add: step.simps advanced_stop)
next
  case (ServerListening q)
  show ?thesis
  proof (cases "q \<in> set (probing w)")
    case True
    let ?w1 = "w\<lparr>probing := removeAll q (probing w), trace := trace w @ [ServerClose]\<rparr>"
    have qp: "q \<noteq> p" using True assms by (auto simp: stop_owned_iff)
    have u1: "advanced p w ?w1" using assms by (auto simp: advanced_def stop_owned_iff)
    then have "advanced p ?w1 (start_resume q ?w1)"
      using qp by (intro advanced_start_resume advanced_owned)
    with u1 show ?thesis
      using True ServerListening by (simp add: step.simps) (rule advanced_trans)
  next
    case False
    then show ?thesis using assms ServerListening by (simp add: step.simps advanced_refl)
  qed
next
  case (ServerError q err)
  show ?thesis
  proof (cases "q \<in> set (probing w)")
    case True
    then have "q \<noteq> p" using assms by (auto simp: stop_owned_iff)
    then show ?thesis
      using assms True ServerError by (auto simp: step.simps advanced_def stop_owned_iff)
  next
    case False
    then show ?thesis using assms ServerError by (simp add: step.simps advanced_refl)
  qed
next
  case (StdoutData d out)
  then show ?thesis
    using assms by (simp add: step.simps on_stdout_data_def advanced_doResolve advanced_refl)
next
  case (StderrData d out)
  then show ?thesis
    using assms by (simp add: step.simps on_stderr_data_def advanced_doResolve advanced_refl)
next
  case (ChildError d msg)
  then show ?thesis
    using assms by (simp add: step.simps on_error_def advanced_doReject advanced_refl)
next
  case (ChildExit d k)
  show ?thesis
  proof (cases "d < length (children w)")
    case True
    have u1: "advanced p w (on_exit d k w)" using assms True by (rule advanced_on_exit)
    then have "advanced p (on_exit d k w) (fold stop_exit (exit_listeners d w) (on_exit d k w))"
      by (intro advanced_fold_stop_exit advanced_owned)
    with u1 show ?thesis
      using True ChildExit by (simp add: step.simps) (rule advanced_trans)
  next
    case False
    then show ?thesis using assms ChildExit by (simp add: step.simps advanced_refl)
  qed
next
  case (StartupTimeout d)
  show ?thesis
  proof (cases "d < length (children w) \<and> startupTimeout (children w ! d) \<noteq> None")
    case True
    let ?w1 = "w\<lparr>children := (children w)[d := (children w ! d)\<lparr>startupTimeout := None\<rparr>]\<rparr>"
    have u1: "advanced p w ?w1"
      using assms True by (auto simp: advanced_def stop_owned_iff nth_list_update)
    then have "advanced p ?w1 (doReject d e ?w1)" for e
      using True by (intro advanced_doReject advanced_owned) simp_all
    with u1 show ?thesis
      using True StartupTimeout
      by (simp add: step.simps on_startup_timeout_def) (rule advanced_trans)
  next
    case False
    then show ?thesis using assms StartupTimeout by (auto simp: step.simps advanced_refl)
  qed
next
  case (StopTimeout i)
  show ?thesis
  proof (cases "i < length (stops w) \<and> timeout (stops w ! i) \<noteq> None")
    case True
    let ?w1 = "w\<lparr>stops := (stops w)[i := (stops w ! i)\<lparr>timeout := None\<rparr>]\<rparr>"
    have u1: "advanced p w ?w1" using assms by (auto simp: advanced_def stop_owned_iff)
    then have "advanced p ?w1 (stop_timeout i ?w1)"
      by (intro advanced_stop_timeout advanced_owned)
    with u1 show ?thesis
      using True StopTimeout by (simp add: step.simps) (rule advanced_trans)
  next
    case False
    then show ?thesis using assms StopTimeout by (auto simp: step.simps advanced_refl)
  qed
qed

lemma advanced_run: "stop_owned p w \<Longrightarrow> advanced p w (run es w)"
proof (induction es arbitrary: w)
  case Nil
  then show ?case by (simp add: run_def advanced_refl)
next
  case (Cons e es)
  have a: "advanced p w (step e w)" using Cons.prems by (rule advanced_step)
  then have "advanced p (step e w) (run es (step e w))"
    by (intro Cons.IH) (rule advanced_owned)
  with a show ?case by (simp add: run_Cons advanced_trans)
qed

lemma fold_stop_exit_fulfils:
  "\<forall>j \<in> set js. j < length (stops w) \<Longrightarrow> p < length (promises w)
   \<Longrightarrow> promises w ! p = Fulfilled
       \<or> (promises w ! p = Pending \<and> i \<in> set js \<and> resolves (stops w ! i) = p)
   \<Longrightarrow> promises (fold stop_exit js w) ! p = Fulfilled"
proof (induction js arbitrary: w)
  case Nil
  then show ?case by simp
next
  case (Cons j js)
  let ?v = "stop_exit j w"
  have j: "j < length (stops w)" using Cons.prems(1) by simp
  have ps: "promises ?v = settle (resolves (stops w ! j)) Fulfilled (promises w)"
    by (simp add: stop_exit_def resolve_def)
  have rs: "resolves (stops ?v ! i) = resolves (stops w ! i)"
    using j by (cases "i = j") (simp_all add: stop_exit_def resolve_def)
  have "\<forall>j \<in> set js. j < length (stops ?v)" using Cons.prems(1) by simp
  moreover have "p < length (promises ?v)" using Cons.prems(2) ps by simp
  moreover have "promises ?v ! p = Fulfilled
        \<or> (promises ?v ! p = Pending \<and> i \<in> set js \<and> resolves (stops ?v ! i) = p)"
    using Cons.prems(2,3) ps rs
    by (cases "i = j") (auto simp: settle_def nth_list_update)
  ultimately have "promises (fold stop_exit js ?v) ! p = Fulfilled" by (rule Cons.IH)
  then show ?case by simp
qed

lemma fold_stop_exit_clears_timer:
  "i < length (stops w) \<Longrightarrow> timeout (stops w ! i) = None \<or> i \<in> set js
   \<Longrightarrow> timeout (stops (fold stop_exit js w) ! i) = None"
proof (induction js arbitrary: w)
  case Nil
  then show ?case by simp
next
  case (Cons j js)
  let ?v = "stop_exit j w"
  have "i < length (stops ?v)" using Cons.prems(1) by simp
  moreover have "timeout (stops ?v ! i) = None \<or> i \<in> set js"
    using Cons.prems by (cases "i = j") (auto simp: stop_exit_def resolve_def)
  ultimately have "timeout (stops (fold stop_exit js ?v) ! i) = None" by (rule Cons.IH)
  then show ?case by simp
qed

lemma stop_running_eq:
  "process (this w) = Some c \<Longrightarrow> isRunning (this w) \<Longrightarrow>
   stop w = (Awaits (length (promises w)),
             w\<lparr>promises := promises w @ [Pending],
               stops := stops w @ [\<lparr>target = c, timeout = Some 5000, listening = True,
                                     resolves = length (promises w)\<rparr>],
               trace := trace w @ [Kill c SIGTERM]\<rparr>)"
  by (simp add: stop_def)

lemma stop_owned_fresh:
  "promises_allocated w \<Longrightarrow> process (this w) = Some c \<Longrightarrow> isRunning (this w)
   \<Longrightarrow> stop_owned (length (promises w)) (snd (stop w))"
  by (auto simp: stop_running_eq promises_allocated_def stop_owned_def list_all_iff)

lemma on_exit_keeps_stops:
  "stops (on_exit c k w) ! i = stops w ! i"
  by (simp add: on_exit_def doReject_def cleanup_def reject_def stop_def Let_def)

lemma length_stops_on_exit: "length (stops (on_exit c k w)) = length (stops w)"
  by (simp add: on_exit_def doReject_def cleanup_def reject_def stop_def Let_def)

lemma stop_running_general:
  assumes "process (this w) = Some c" and "isRunning (this w)" and "c < length (children w)"
    and "promises_allocated w"
  shows "fst (stop w) = Awaits (length (promises w))
     \<and> trace (snd (stop w)) = trace w @ [Kill c SIGTERM]
     \<and> promises (snd (stop w)) ! length (promises w) = Pending
     \<and> stops (snd (stop w)) ! length (stops w)
         = \<lparr>target = c, timeout = Some 5000, listening = True, resolves = length (promises w)\<rparr>
     \<and> promises (step (ChildExit c k) (snd (stop w))) ! length (promises w) = Fulfilled
     \<and> timeout (stops (step (ChildExit c k) (snd (stop w))) ! length (stops w)) = None
     \<and> trace (step (StopTimeout (length (stops w))) (snd (stop w)))
         = trace w @ [Kill c SIGTERM, Kill c SIGKILL, CallResolve (length (promises w))]
     \<and> promises (step (StopTimeout (length (stops w))) (snd (stop w))) ! length (promises w)
         = Fulfilled
     \<and> (\<forall>es e. promises (run es (snd (stop w))) ! length (promises w) \<noteq> Rejected e)"
proof -
  let ?p = "length (promises w)" and ?i = "length (stops w)"
  let ?v = "snd (stop w)"
  note eq = stop_running_eq [OF assms(1,2)]
  have own: "stop_owned ?p ?v" using assms(4,1,2) by (rule stop_owned_fresh)
  have pend: "promises ?v ! ?p = Pending" by (simp add: eq)
  have cl: "stops ?v ! ?i
      = \<lparr>target = c, timeout = Some 5000, listening = True, resolves = ?p\<rparr>"
    by (simp add: eq)
  have cv: "c < length (children ?v)" using assms(3) by (simp add: eq)
  let ?x = "on_exit c k ?v"
  have mem: "?i \<in> set (exit_listeners c ?v)"
    by (simp add: exit_listeners_def eq)
  have bound: "\<forall>j \<in> set (exit_listeners c ?v). j < length (stops ?x)"
    using exit_listeners_bound [of c ?v] by (simp add: length_stops_on_exit)
  have ax: "advanced ?p ?v ?x" using own cv by (rule advanced_on_exit)
  then have px: "?p < length (promises ?x)"
    and sx: "promises ?x ! ?p = Pending \<or> promises ?x ! ?p = Fulfilled"
    using pend by (auto simp: advanced_def stop_owned_iff)
  have ix: "?i < length (stops ?x)" by (simp add: length_stops_on_exit eq)
  have rx: "resolves (stops ?x ! ?i) = ?p"
    using on_exit_keeps_stops [of c k ?v ?i] cl by (simp add: eq)
  have exit1: "promises (step (ChildExit c k) ?v) ! ?p = Fulfilled"
    using fold_stop_exit_fulfils [OF bound px, of ?i] sx mem rx cv
    by (auto simp: step.simps)
  have exit2: "timeout (stops (step (ChildExit c k) ?v) ! ?i) = None"
    using fold_stop_exit_clears_timer [OF ix, of "exit_listeners c ?v"] mem cv
    by (simp add: step.simps)
  have t1: "trace (step (StopTimeout ?i) ?v)
      = trace w @ [Kill c SIGTERM, Kill c SIGKILL, CallResolve ?p]"
    using assms(1) by (simp add: eq step.simps stop_timeout_def resolve_def)
  have t2: "promises (step (StopTimeout ?i) ?v) ! ?p = Fulfilled"
    using assms(1) by (simp add: eq step.simps stop_timeout_def resolve_def settle_def)
  have never: "promises (run es ?v) ! ?p \<noteq> Rejected e" for es e
    using advanced_run [OF own, of es] pend by (auto simp: advanced_def)
  show ?thesis
    using exit1 exit2 t1 t2 never by (simp add: eq)
qed

lemma ready_facts:
  "process (this ready) = Some 0" "isRunning (this ready)" "0 < length (children ready)"
  "promises_allocated ready" "length (promises ready) = 1" "length (stops ready) = 0"
  by (simp_all add: ready_eq starting_eq promises_allocated_def)

lemma length_filter_mono:
  "(\<And>x. P x \<Longrightarrow> Q x) \<Longrightarrow> length (filter P xs) \<le> length (filter Q xs)"
  by (induction xs) auto

lemma resolutions_le_settlements: "resolutions p w \<le> settlements p w"
  unfolding resolutions_def settlements_def
  by (rule length_filter_mono) (simp split: effect.splits)

lemma outcome_Fulfilled: "is_signal c e \<Longrightarrow> (outcome e = Fulfilled) = is_chunk c e"
  by (cases e) simp_all

lemma outcome_not_Pending: "is_signal c e \<Longrightarrow> outcome e \<noteq> Pending"
  by (cases e) simp_all

lemma find_append_Some: "find P xs = Some x \<Longrightarrow> find P (xs @ ys) = Some x"
  by (induction xs) (auto split: if_splits)

lemma first_signal_general:
  assumes "unsettled c p w"
  shows "case find (is_signal c) es of
           None \<Rightarrow> promises (run es w) ! p = Pending \<and> settlements p (run es w) = 0
         | Some e \<Rightarrow>
             promises (run es w) ! p = outcome e \<and> settlements p (run es w) = 1
             \<and> outcome e \<noteq> Pending \<and> (outcome e = Fulfilled) = is_chunk c e
             \<and> (\<forall>fs. promises (run (es @ fs) w) ! p = outcome e
                      \<and> settlements p (run (es @ fs) w) = 1)"
proof (cases "find (is_signal c) es")
  case None
  then show ?thesis
    using first_signal_decides [OF assms, of es] by (simp add: unsettled_def)
next
  case (Some e)
  then have sig: "is_signal c e" by (auto simp: find_Some_iff)
  have "settled_as c p (outcome e) (run (es @ fs) w)" for fs
    using first_signal_decides [OF assms, of "es @ fs"] find_append_Some [OF Some] by simp
  then have "promises (run (es @ fs) w) ! p = outcome e \<and> settlements p (run (es @ fs) w) = 1" for fs
    by (simp add: settled_as_def)
  then show ?thesis
    using Some outcome_Fulfilled [OF sig] outcome_not_Pending [OF sig]
      first_signal_decides [OF assms, of es]
    by (simp add: settled_as_def)
qed

subsection \<open>The readiness marker\<close>

lemma chunk_step:
  assumes "unsettled c p w" "is_chunk c e"
  shows "promises (step e w) ! p = (if is_signal c e then Fulfilled else Pending)"
proof (cases "is_signal c e")
  case True
  then have "settled_as c p (outcome e) (step e w)" using assms(1) by (simp add: signal_settles)
  then show ?thesis
    using True outcome_Fulfilled [OF True] assms(2) by (simp add: settled_as_def)
next
  case False
  then show ?thesis using assms by (simp add: quiet_chunk unsettled_def)
qed

lemma resolutions_run: "unsettled c p w \<Longrightarrow> resolutions p (run es w) \<le> 1"
  using first_signal_decides [of c p w es] resolutions_le_settlements [of p "run es w"]
  by (auto simp: unsettled_def settled_as_def split: option.splits)

lemma marker_general:
  assumes "unsettled c p w"
  shows "promises (step (StdoutData c output) w) ! p
           = (if includes_str output ''Waiting for connections''
                 \<or> includes_str output ''waiting for connections''
              then Fulfilled else Pending)
     \<and> promises (step (StderrData c output) w) ! p
           = (if includes_str output ''Waiting for connections''
                 \<or> includes_str output ''waiting for connections''
              then Fulfilled else Pending)
     \<and> resolutions p (run es w) \<le> 1"
  using chunk_step [OF assms, of "StdoutData c output"]
    chunk_step [OF assms, of "StderrData c output"] resolutions_run [OF assms, of es]
  by simp

subsection \<open>When startupPromise is cleared\<close>

lemma startupPromise_doResolve: "startupPromise (this (doResolve c w)) = startupPromise (this w)"
  by (simp add: doResolve_def cleanup_def resolve_def Let_def)

lemma startupPromise_chunk:
  "startupPromise (this (step (StdoutData c output) w)) = startupPromise (this w)"
  "startupPromise (this (step (StderrData c output) w)) = startupPromise (this w)"
  by (simp_all add: step.simps on_stdout_data_def on_stderr_data_def startupPromise_doResolve)

lemma this_stop_exit:
  "this (stop_exit i w) = (this w)\<lparr>isRunning := False, process := None, startupPromise := None\<rparr>"
  by (simp add: stop_exit_def resolve_def)

lemma this_fold_stop_exit:
  "js \<noteq> [] \<Longrightarrow>
   this (fold stop_exit js w)
     = (this w)\<lparr>isRunning := False, process := None, startupPromise := None\<rparr>"
proof (induction js arbitrary: w)
  case Nil
  then show ?case by simp
next
  case (Cons j js)
  show ?case
  proof (cases "js = []")
    case True
    then show ?thesis by (simp add: this_stop_exit)
  next
    case False
    then show ?thesis using Cons.IH [of "stop_exit j w"] by (simp add: this_stop_exit)
  qed
qed

lemma config_on_exit [simp]: "config (this (on_exit c k w)) = config (this w)"
  by (simp add: on_exit_def Let_def)

lemma length_promises_fold_stop_exit [simp]:
  "length (promises (fold stop_exit js w)) = length (promises w)"
  by (induction js arbitrary: w) (simp_all add: stop_exit_def resolve_def)

lemma start_fresh:
  assumes "enabled (config (this w))" "startupPromise (this w) = None" "\<not> isRunning (this w)"
    "0 \<le> port (config (this w))" "port (config (this w)) < 65536"
  shows "start w =
     (Awaits (length (promises w)),
      w\<lparr>this := (this w)\<lparr>startupPromise := Some (length (promises w))\<rparr>,
        promises := promises w @ [Pending],
        probing := probing w @ [length (promises w)],
        trace := trace w @ [Listen (port (config (this w))) ''127.0.0.1'']\<rparr>)"
  using assms by (simp add: start_def start_private_def)

text \<open>
  C3 as stated fails: in the concrete run the marker has arrived and the startup
  promise is fulfilled, yet \<^verbatim>\<open>startupPromise\<close> still holds it, and \<^verbatim>\<open>start()\<close> returns
  that settled promise and begins nothing.
\<close>

theorem settled_promise_kept:
  "promises ready ! 0 = Fulfilled \<and> startupPromise (this ready) = Some 0
   \<and> start ready = (Awaits 0, ready)"
  by (simp add: ready_eq starting_eq start_def)

subsection \<open>The port preflight check\<close>

text \<open>
  A port outside 0 to 65535 never reaches the probe: \<^verbatim>\<open>server.listen\<close> throws before it
  binds anything, so the promise of \<^verbatim>\<open>start()\<close> is rejected at once with that
  \<^verbatim>\<open>RangeError\<close>; nothing listens and nothing is spawned.
\<close>

lemma start_port_out_of_range:
  assumes "enabled (config (this w))" and "startupPromise (this w) = None"
    and "\<not> isRunning (this w)"
    and "port (config (this w)) < 0 \<or> 65536 \<le> port (config (this w))"
  shows "start w =
     (Awaits (length (promises w)),
      w\<lparr>this := (this w)\<lparr>startupPromise := Some (length (promises w))\<rparr>,
        promises := promises w @ [Rejected (SocketBadPort (port (config (this w))))]\<rparr>)"
  using assms by (auto simp: start_def start_private_def)

text \<open>
  C8. On an enabled, stopped controller whose port is an integer from 0 to 65535,
  \<^verbatim>\<open>start()\<close> asks the probe server to listen on 127.0.0.1 at the configured port; its
  promise is pending and nothing is spawned yet. When the server is listening it is
  closed and the startup goes on to the two directories: if they exist or can be made,
  the binary is spawned and the promise stays pending; if \<^verbatim>\<open>mkdirSync\<close> throws error
  \<open>e\<close>, the promise is rejected with \<open>e\<close> and nothing is spawned. When the server
  fails, the promise is rejected, with the port-in-use message if the error code is
  \<^verbatim>\<open>EADDRINUSE\<close> and with the port-check message otherwise, and no process is spawned.
\<close>

theorem port_preflight:
  assumes "enabled (config (this w))" and "startupPromise (this w) = None"
    and "\<not> isRunning (this w)"
    and "0 \<le> port (config (this w))" and "port (config (this w)) < 65536"
  shows "fst (start w) = Awaits (length (promises w))
     \<and> trace (snd (start w)) = trace w @ [Listen (port (config (this w))) ''127.0.0.1'']
     \<and> children (snd (start w)) = children w
     \<and> promises (snd (start w)) ! length (promises w) = Pending
     \<and> take (length (trace w) + 2)
            (trace (step (ServerListening (length (promises w))) (snd (start w))))
         = trace w @ [Listen (port (config (this w))) ''127.0.0.1'', ServerClose]
     \<and> (fst (start_dirs w) = None \<longrightarrow>
           last (trace (step (ServerListening (length (promises w))) (snd (start w))))
             = Spawn (mongodPath (config (this w))) (spawn_args (runtime w) (config (this w)))
           \<and> spawned (step (ServerListening (length (promises w))) (snd (start w)))
               = spawned w + 1
           \<and> process (this (step (ServerListening (length (promises w))) (snd (start w))))
               = Some (length (children w))
           \<and> promises (step (ServerListening (length (promises w))) (snd (start w)))
                ! length (promises w) = Pending)
     \<and> (fst (start_dirs w) = Some e \<longrightarrow>
           promises (step (ServerListening (length (promises w))) (snd (start w)))
             ! length (promises w) = Rejected e
           \<and> spawned (step (ServerListening (length (promises w))) (snd (start w))) = spawned w
           \<and> children (step (ServerListening (length (promises w))) (snd (start w)))
               = children w
           \<and> process (this (step (ServerListening (length (promises w))) (snd (start w))))
               = process (this w))
     \<and> promises (step (ServerError (length (promises w)) err) (snd (start w)))
          ! length (promises w)
         = Rejected (if code err = Some ''EADDRINUSE''
                     then Error (''Port '' @ String_int (port (config (this w)))
                                 @ '' is already in use. Cannot start MongoDB subprocess.'')
                     else Error (''Port check failed: '' @ message err))
     \<and> trace (step (ServerError (length (promises w)) err) (snd (start w)))
         = trace w @ [Listen (port (config (this w))) ''127.0.0.1'']
     \<and> spawned (step (ServerError (length (promises w)) err) (snd (start w))) = spawned w
     \<and> children (step (ServerError (length (promises w)) err) (snd (start w))) = children w
     \<and> process (this (step (ServerError (length (promises w)) err) (snd (start w))))
         = process (this w)"
proof -
  let ?p = "length (promises w)"
  let ?v = "snd (start w)"
  let ?v1 = "?v\<lparr>probing := removeAll ?p (probing ?v), trace := trace ?v @ [ServerClose]\<rparr>"
  note eq = start_fresh [OF assms]
  have mem: "?p \<in> set (probing ?v)" by (simp add: eq)
  have l: "step (ServerListening ?p) ?v = start_resume ?p ?v1"
    using mem by (simp add: step.simps)
  have d: "fst (start_dirs ?v1) = fst (start_dirs w)"
    by (rule start_dirs_fst_cong) (simp_all add: eq)
  have sv: "spawned ?v = spawned w" by (simp add: eq spawned_def)
  have tk: "take (length (trace w) + 2) (trace (step (ServerListening ?p) ?v))
      = trace w @ [Listen (port (config (this w))) ''127.0.0.1'', ServerClose]"
    unfolding l
    by (cases rule: start_resume_cases [of ?v1 ?p]) (simp_all add: eq start_spawn_def)
  have ok: "last (trace (step (ServerListening ?p) ?v))
          = Spawn (mongodPath (config (this w))) (spawn_args (runtime w) (config (this w)))
        \<and> process (this (step (ServerListening ?p) ?v)) = Some (length (children w))
        \<and> promises (step (ServerListening ?p) ?v) ! ?p = Pending"
    if "fst (start_dirs w) = None"
  proof (cases rule: start_resume_cases [of ?v1 ?p])
    case (spawn ds xs)
    show ?thesis unfolding l spawn(2) by (simp add: eq start_spawn_def)
  next
    case (throw e ds xs)
    then show ?thesis using that d by simp
  qed
  have d': "fst (start_dirs ?v) = fst (start_dirs w)"
    by (rule start_dirs_fst_cong) (simp_all add: eq)
  have sp: "spawned (step (ServerListening ?p) ?v)
      = spawned w + (if fst (start_dirs w) = None then 1 else 0)"
    using spawned_listening [OF mem] sv by (simp add: dirs_ready_def d')
  have no: "promises (step (ServerListening ?p) ?v) ! ?p = Rejected e
        \<and> children (step (ServerListening ?p) ?v) = children w
        \<and> process (this (step (ServerListening ?p) ?v)) = process (this w)"
    if "fst (start_dirs w) = Some e"
  proof (cases rule: start_resume_cases [of ?v1 ?p])
    case (spawn ds xs)
    then show ?thesis using that d by (simp add: dirs_ready_def)
  next
    case (throw e' ds xs)
    then have "e' = e" using that d by simp
    then show ?thesis unfolding l throw(2) by (simp add: eq settle_def)
  qed
  have er: "step (ServerError ?p err) ?v
      = ?v\<lparr>probing := removeAll ?p (probing ?v),
            promises := settle ?p (Rejected (checkPortAvailable_error
                                               (port (config (this ?v))) err)) (promises ?v)\<rparr>"
    using mem by (simp add: step.simps)
  have rj: "promises (step (ServerError ?p err) ?v) ! ?p
      = Rejected (if code err = Some ''EADDRINUSE''
                  then Error (''Port '' @ String_int (port (config (this w)))
                              @ '' is already in use. Cannot start MongoDB subprocess.'')
                  else Error (''Port check failed: '' @ message err))"
    unfolding er by (simp add: eq settle_def checkPortAvailable_error_def)
  have rest: "trace (step (ServerError ?p err) ?v)
        = trace w @ [Listen (port (config (this w))) ''127.0.0.1'']"
      "children (step (ServerError ?p err) ?v) = children w"
      "process (this (step (ServerError ?p err) ?v)) = process (this w)"
    unfolding er by (simp_all add: eq)
  have se: "spawned (step (ServerError ?p err) ?v) = spawned w"
    using sv by (simp add: spawned_server_error)
  show ?thesis
    using tk ok no sp rj rest se by (simp add: eq)
qed

text \<open>
  C8 at the freshly constructed example, for a port in use, for another failure of the
  probe and for a free port; and at the controller whose directories cannot be made.
\<close>

theorem port_preflight_witness:
  "enabled (config (this stopped)) \<and> startupPromise (this stopped) = None
   \<and> \<not> isRunning (this stopped)
   \<and> 0 \<le> port (config (this stopped)) \<and> port (config (this stopped)) < 65536
   \<and> fst (start_dirs stopped) = None
   \<and> fst (start stopped) = Awaits 0
   \<and> trace (snd (start stopped)) = [Listen 27017 ''127.0.0.1'']
   \<and> promises (step (ServerError 0 \<lparr>code = Some ''EADDRINUSE'',
                                     message = ''listen EADDRINUSE: address already in use''\<rparr>)
                 (snd (start stopped))) ! 0
       = Rejected (Error ''Port 27017 is already in use. Cannot start MongoDB subprocess.'')
   \<and> spawned (step (ServerError 0 \<lparr>code = Some ''EADDRINUSE'',
                                     message = ''listen EADDRINUSE: address already in use''\<rparr>)
                 (snd (start stopped))) = 0
   \<and> promises (step (ServerError 0 \<lparr>code = Some ''EACCES'',
                                     message = ''listen EACCES: permission denied''\<rparr>)
                 (snd (start stopped))) ! 0
       = Rejected (Error ''Port check failed: listen EACCES: permission denied'')
   \<and> spawned (step (ServerListening 0) (snd (start stopped))) = 1
   \<and> process (this (step (ServerListening 0) (snd (start stopped)))) = Some 0
   \<and> promises (step (ServerListening 0) (snd (start stopped))) ! 0 = Pending
   \<and> enabled (config (this read_only)) \<and> startupPromise (this read_only) = None
   \<and> \<not> isRunning (this read_only)
   \<and> 0 \<le> port (config (this read_only)) \<and> port (config (this read_only)) < 65536
   \<and> fst (start_dirs read_only)
       = Some (Error ''EACCES: permission denied, mkdir /srv/.mongodb-data'')
   \<and> promises (step (ServerListening 0) (snd (start read_only))) ! 0
       = Rejected (Error ''EACCES: permission denied, mkdir /srv/.mongodb-data'')
   \<and> spawned (step (ServerListening 0) (snd (start read_only))) = 0
   \<and> process (this (step (ServerListening 0) (snd (start read_only)))) = None"
proof -
  note f = stopped_facts and c = example_constructed
  have h: "enabled (config (this stopped))" "startupPromise (this stopped) = None"
    "\<not> isRunning (this stopped)"
    "0 \<le> port (config (this stopped))" "port (config (this stopped)) < 65536"
    by (simp_all add: f c)
  have g: "enabled (config (this read_only))" "startupPromise (this read_only) = None"
    "\<not> isRunning (this read_only)"
    "0 \<le> port (config (this read_only))" "port (config (this read_only)) < 65536"
    by (simp_all add: f c)
  show ?thesis
    using port_preflight [OF h,
        where err = "\<lparr>code = Some ''EADDRINUSE'',
                      message = ''listen EADDRINUSE: address already in use''\<rparr>"
          and e = "Error []"]
      port_preflight [OF h,
        where err = "\<lparr>code = Some ''EACCES'', message = ''listen EACCES: permission denied''\<rparr>"
          and e = "Error []"]
      port_preflight [OF g,
        where err = "\<lparr>code = Some ''EACCES'', message = ''listen EACCES: permission denied''\<rparr>"
          and e = "Error ''EACCES: permission denied, mkdir /srv/.mongodb-data''"]
      h g example_dirs
    by (simp add: f c String_int_27017)
qed

section \<open>Every reachable world is consistent\<close>

lemma children_fold_stop_exit [simp]: "children (fold stop_exit js w) = children w"
  by (induction js arbitrary: w) (simp_all add: stop_exit_def resolve_def)

lemma probing_fold_stop_exit [simp]: "probing (fold stop_exit js w) = probing w"
  by (induction js arbitrary: w) (simp_all add: stop_exit_def resolve_def)

lemma process_fold_stop_exit:
  "process (this (fold stop_exit js w)) = (if js = [] then process (this w) else None)"
  by (cases "js = []") (simp_all add: this_fold_stop_exit)

lemma ids_bounded_iff:
  "ids_bounded w =
     ((\<forall>d < length (children w). settles (children w ! d) < length (promises w))
      \<and> (\<forall>q \<in> set (probing w). q < length (promises w))
      \<and> (\<forall>s \<in> set (stops w). resolves s < length (promises w))
      \<and> (\<forall>q. CallResolve q \<in> set (trace w) \<longrightarrow> q < length (promises w))
      \<and> (\<forall>q e. CallReject q e \<in> set (trace w) \<longrightarrow> q < length (promises w))
      \<and> (\<forall>c. process (this w) = Some c \<longrightarrow> c < length (children w)))"
proof -
  have a: "list_all (\<lambda>k. settles k < n) ks = (\<forall>d < length ks. settles (ks ! d) < n)" for n ks
    by (simp add: list_all_length)
  have b: "list_all (\<lambda>x. case x of CallResolve q \<Rightarrow> q < n | CallReject q _ \<Rightarrow> q < n | _ \<Rightarrow> True) t
      = ((\<forall>q. CallResolve q \<in> set t \<longrightarrow> q < n) \<and> (\<forall>q e. CallReject q e \<in> set t \<longrightarrow> q < n))"
    for n t
    by (induction t) (auto split: effect.splits)
  show ?thesis
    unfolding ids_bounded_def a b by (auto simp: list_all_iff split: option.splits)
qed

lemma ids_fold_stop_exit:
  "\<forall>s \<in> set (stops w). resolves s < n \<Longrightarrow> \<forall>j \<in> set js. j < length (stops w) \<Longrightarrow>
     (\<forall>s \<in> set (stops (fold stop_exit js w)). resolves s < n)
     \<and> set (trace (fold stop_exit js w))
         \<subseteq> set (trace w) \<union> CallResolve ` {q. q < n}
     \<and> length (promises (fold stop_exit js w)) = length (promises w)"
proof (induction js arbitrary: w)
  case Nil
  then show ?case by simp
next
  case (Cons j js)
  let ?v = "stop_exit j w"
  have j: "j < length (stops w)" using Cons.prems(2) by simp
  then have rj: "resolves (stops w ! j) < n" using Cons.prems(1) by simp
  have 1: "\<forall>s \<in> set (stops ?v). resolves s < n"
    using Cons.prems(1) j rj
    by (auto simp: stop_exit_def resolve_def dest!: set_update_subset_insert [THEN subsetD])
  have 2: "\<forall>j \<in> set js. j < length (stops ?v)" using Cons.prems(2) by simp
  have 3: "set (trace ?v) \<subseteq> set (trace w) \<union> CallResolve ` {q. q < n}"
    using rj by (auto simp: stop_exit_def resolve_def)
  have 4: "length (promises ?v) = length (promises w)" by (simp add: stop_exit_def resolve_def)
  show ?case using Cons.IH [OF 1 2] 3 4 by auto
qed

lemma ids_bounded_step:
  assumes "ids_bounded w"
  shows "ids_bounded (step e w)"
proof (cases e)
  case (ChildExit d k)
  show ?thesis
  proof (cases "d < length (children w)")
    case True
    let ?x = "on_exit d k w"
    have x: "ids_bounded ?x \<and> length (stops w) \<le> length (stops ?x)"
      using assms True
      by (auto simp: ids_bounded_iff on_exit_def doReject_def cleanup_def reject_def stop_def
            Let_def nth_list_update nth_append less_Suc_eq split: option.splits)
    then have b: "\<forall>j \<in> set (exit_listeners d w). j < length (stops ?x)"
      using exit_listeners_bound [of d w] by auto
    have s: "\<forall>s \<in> set (stops ?x). resolves s < length (promises ?x)"
      using x by (simp add: ids_bounded_iff)
    let ?y = "fold stop_exit (exit_listeners d w) ?x"
    note f = ids_fold_stop_exit [OF s b]
    have t1: "q < length (promises ?x)" if "CallResolve q \<in> set (trace ?y)" for q
    proof -
      have "CallResolve q \<in> set (trace ?x) \<or> q < length (promises ?x)"
        using that f by blast
      then show ?thesis using x by (auto simp: ids_bounded_iff)
    qed
    have t2: "q < length (promises ?x)" if "CallReject q r \<in> set (trace ?y)" for q r
    proof -
      have "CallReject q r \<in> set (trace ?x)" using that f by blast
      then show ?thesis using x by (auto simp: ids_bounded_iff)
    qed
    have "ids_bounded ?y"
      using f x t1 t2 unfolding ids_bounded_iff [of ?y]
      by (auto simp: ids_bounded_iff process_fold_stop_exit)
    then show ?thesis using True ChildExit by (simp add: step.simps)
  next
    case False
    then show ?thesis using assms ChildExit by (simp add: step.simps)
  qed
next
  case (ServerListening r)
  show ?thesis
  proof (cases "r \<in> set (probing w)")
    case True
    let ?w1 = "w\<lparr>probing := removeAll r (probing w), trace := trace w @ [ServerClose]\<rparr>"
    have 1: "ids_bounded ?w1" and r: "r < length (promises ?w1)"
      using assms True by (auto simp: ids_bounded_iff)
    have "ids_bounded (start_resume r ?w1)"
      using 1 r
      by (cases rule: start_resume_cases [of ?w1 r])
         (auto simp: ids_bounded_iff start_spawn_def nth_append less_Suc_eq)
    then show ?thesis using True ServerListening by (simp add: step.simps)
  next
    case False
    then show ?thesis using assms ServerListening by (simp add: step.simps)
  qed
qed (use assms in \<open>auto simp: step.simps ids_bounded_iff
          on_stdout_data_def on_stderr_data_def on_error_def on_startup_timeout_def
          doResolve_def doReject_def cleanup_def resolve_def reject_def stop_def stop_timeout_def
          start_def start_private_def Let_def nth_list_update
          nth_append less_Suc_eq
          split: option.splits if_splits
          dest!: set_update_subset_insert [THEN subsetD]\<close>)


lemma free_iff:
  "free q w =
     (q < length (promises w)
      \<and> (\<forall>d < length (children w). settles (children w ! d) \<noteq> q)
      \<and> (\<forall>s \<in> set (stops w). resolves s \<noteq> q))"
proof -
  have *: "list_all (\<lambda>k. settles k \<noteq> q) ks = (\<forall>d < length ks. settles (ks ! d) \<noteq> q)" for ks
    by (simp add: list_all_length)
  show ?thesis unfolding free_def * by (simp add: list_all_iff)
qed

lemma kept_refl: "free q w \<Longrightarrow> kept q w w"
  by (simp add: kept_def)

lemma kept_trans: "kept q w v \<Longrightarrow> kept q v u \<Longrightarrow> kept q w u"
  by (simp add: kept_def)

lemma kept_free: "kept q w v \<Longrightarrow> free q v"
  by (simp add: kept_def)

lemma kept_this: "kept q w v \<Longrightarrow> kept q w (v\<lparr>this := t\<rparr>)"
  by (auto simp: kept_def free_iff settlements_def)

lemma kept_resolve: "free q w \<Longrightarrow> r \<noteq> q \<Longrightarrow> kept q w (resolve r w)"
  by (simp add: kept_def free_iff resolve_def settlements_def)

lemma kept_reject: "free q w \<Longrightarrow> r \<noteq> q \<Longrightarrow> kept q w (reject r e w)"
  by (simp add: kept_def free_iff reject_def settlements_def)

lemma kept_stop: "free q w \<Longrightarrow> kept q w (snd (stop w))"
  by (auto simp: kept_def free_iff stop_def settlements_def nth_append split: option.splits)

lemma kept_stop_timeout: "free q w \<Longrightarrow> i < length (stops w) \<Longrightarrow> kept q w (stop_timeout i w)"
  by (auto simp: kept_def free_iff stop_timeout_def resolve_def settlements_def
        split: option.splits)

lemma kept_stop_exit: "free q w \<Longrightarrow> i < length (stops w) \<Longrightarrow> kept q w (stop_exit i w)"
  by (auto simp: kept_def free_iff stop_exit_def resolve_def settlements_def
        dest!: set_update_subset_insert [THEN subsetD])

lemma kept_fold_stop_exit:
  "free q w \<Longrightarrow> \<forall>i \<in> set js. i < length (stops w) \<Longrightarrow> kept q w (fold stop_exit js w)"
proof (induction js arbitrary: w)
  case Nil
  then show ?case by (simp add: kept_refl)
next
  case (Cons j js)
  have a: "kept q w (stop_exit j w)" using Cons.prems by (simp add: kept_stop_exit)
  then have "kept q (stop_exit j w) (fold stop_exit js (stop_exit j w))"
    using Cons.prems by (intro Cons.IH kept_free) simp_all
  with a show ?case by (simp add: kept_trans)
qed

lemma kept_doResolve: "free q w \<Longrightarrow> d < length (children w) \<Longrightarrow> kept q w (doResolve d w)"
  by (auto simp: kept_def free_iff doResolve_def cleanup_def resolve_def settlements_def Let_def
        nth_list_update)

lemma kept_doReject:
  assumes "free q w" "d < length (children w)"
  shows "kept q w (doReject d e w)"
proof (cases "resolved (children w ! d)")
  case True
  then show ?thesis using assms by (simp add: doReject_def kept_refl)
next
  case False
  let ?w2 = "w\<lparr>children := (children w)[d := (children w ! d)\<lparr>resolved := True,
                  startupTimeout := None\<rparr>]\<rparr>"
  have u2: "kept q w ?w2"
    using assms by (auto simp: kept_def free_iff settlements_def nth_list_update)
  have u3: "kept q ?w2 (snd (stop ?w2))" using u2 by (intro kept_stop kept_free)
  have r: "settles (children (snd (stop ?w2)) ! d) \<noteq> q"
    using assms by (simp add: stop_def free_iff split: option.splits)
  have "doReject d e w = reject (settles (children (snd (stop ?w2)) ! d)) e (snd (stop ?w2))"
    using False assms(2) by (simp add: doReject_def cleanup_def Let_def)
  then show ?thesis
    using kept_reject [OF kept_free [OF u3] r, of e] u3 u2 by (auto intro: kept_trans)
qed

lemma kept_start:
  "free q w \<Longrightarrow> kept q w (snd (start w))"
  by (auto simp: kept_def free_iff start_def start_private_def settlements_def nth_append
        split: option.splits)

lemma kept_start_resume: "free q w \<Longrightarrow> r \<noteq> q \<Longrightarrow> kept q w (start_resume r w)"
  by (cases rule: start_resume_cases [of w r])
     (auto simp: kept_def free_iff start_spawn_def settlements_def nth_append less_Suc_eq)

lemma kept_on_exit:
  assumes "free q w" "d < length (children w)"
  shows "kept q w (on_exit d k w)"
proof -
  let ?w1 = "w\<lparr>this := (this w)\<lparr>isRunning := False, process := None\<rparr>\<rparr>"
  have u1: "kept q w ?w1" using assms(1) by (simp add: kept_refl kept_this)
  have "kept q ?w1 (doReject d e ?w1)" for e
    using u1 assms(2) by (intro kept_doReject kept_free) simp_all
  with u1 show ?thesis
    by (auto simp: on_exit_def Let_def intro: kept_trans)
qed

lemma kept_step:
  assumes "free q w" "e \<noteq> ServerListening q" "\<forall>err. e \<noteq> ServerError q err"
  shows "kept q w (step e w)"
proof (cases e)
  case CallStart
  then show ?thesis using assms by (simp add: step.simps kept_start)
next
  case CallStop
  then show ?thesis using assms by (simp add: step.simps kept_stop)
next
  case (ServerListening r)
  show ?thesis
  proof (cases "r \<in> set (probing w)")
    case True
    let ?w1 = "w\<lparr>probing := removeAll r (probing w), trace := trace w @ [ServerClose]\<rparr>"
    have rq: "r \<noteq> q" using assms(2) ServerListening by simp
    have u1: "kept q w ?w1" using assms(1) by (auto simp: kept_def free_iff settlements_def)
    then have "kept q ?w1 (start_resume r ?w1)"
      using rq by (intro kept_start_resume kept_free)
    with u1 show ?thesis
      using True ServerListening by (simp add: step.simps) (rule kept_trans)
  next
    case False
    then show ?thesis using assms ServerListening by (simp add: step.simps kept_refl)
  qed
next
  case (ServerError r err)
  then have "r \<noteq> q" using assms(3) by simp
  then show ?thesis
    using assms(1) ServerError
    by (auto simp: step.simps kept_def free_iff settlements_def)
next
  case (StdoutData d out)
  then show ?thesis
    using assms by (simp add: step.simps on_stdout_data_def kept_doResolve kept_refl)
next
  case (StderrData d out)
  then show ?thesis
    using assms by (simp add: step.simps on_stderr_data_def kept_doResolve kept_refl)
next
  case (ChildError d msg)
  then show ?thesis
    using assms by (simp add: step.simps on_error_def kept_doReject kept_refl)
next
  case (ChildExit d k)
  show ?thesis
  proof (cases "d < length (children w)")
    case True
    have u1: "kept q w (on_exit d k w)" using assms(1) True by (rule kept_on_exit)
    have "\<forall>i \<in> set (exit_listeners d w). i < length (stops (on_exit d k w))"
      using exit_listeners_bound [of d w] by (simp add: length_stops_on_exit)
    then have "kept q (on_exit d k w) (fold stop_exit (exit_listeners d w) (on_exit d k w))"
      using u1 by (intro kept_fold_stop_exit kept_free)
    with u1 show ?thesis
      using True ChildExit by (simp add: step.simps) (rule kept_trans)
  next
    case False
    then show ?thesis using assms ChildExit by (simp add: step.simps kept_refl)
  qed
next
  case (StartupTimeout d)
  show ?thesis
  proof (cases "d < length (children w) \<and> startupTimeout (children w ! d) \<noteq> None")
    case True
    let ?w1 = "w\<lparr>children := (children w)[d := (children w ! d)\<lparr>startupTimeout := None\<rparr>]\<rparr>"
    have u1: "kept q w ?w1"
      using assms(1) True by (auto simp: kept_def free_iff settlements_def nth_list_update)
    then have "kept q ?w1 (doReject d e ?w1)" for e
      using True by (intro kept_doReject kept_free) simp_all
    with u1 show ?thesis
      using True StartupTimeout
      by (simp add: step.simps on_startup_timeout_def) (rule kept_trans)
  next
    case False
    then show ?thesis using assms StartupTimeout by (auto simp: step.simps kept_refl)
  qed
next
  case (StopTimeout i)
  show ?thesis
  proof (cases "i < length (stops w) \<and> timeout (stops w ! i) \<noteq> None")
    case True
    let ?w1 = "w\<lparr>stops := (stops w)[i := (stops w ! i)\<lparr>timeout := None\<rparr>]\<rparr>"
    have u1: "kept q w ?w1"
      using assms(1) True
      by (auto simp: kept_def free_iff settlements_def
               dest!: set_update_subset_insert [THEN subsetD])
    then have "kept q ?w1 (stop_timeout i ?w1)"
      using True by (intro kept_stop_timeout kept_free) simp_all
    with u1 show ?thesis
      using True StopTimeout by (simp add: step.simps) (rule kept_trans)
  next
    case False
    then show ?thesis using assms StopTimeout by (auto simp: step.simps kept_refl)
  qed
qed


subsection \<open>Suspended runs\<close>

lemma probing_stop [simp]: "probing (snd (stop w)) = probing w"
  by (simp add: stop_def split: option.splits)

lemma probing_doResolve [simp]: "probing (doResolve d w) = probing w"
  by (simp add: doResolve_def cleanup_def resolve_def Let_def)

lemma probing_doReject [simp]: "probing (doReject d e w) = probing w"
  by (simp add: doReject_def cleanup_def reject_def Let_def)

lemma probing_on_exit [simp]: "probing (on_exit d k w) = probing w"
  by (simp add: on_exit_def Let_def)

lemma probing_stop_timeout [simp]: "probing (stop_timeout i w) = probing w"
  by (simp add: stop_timeout_def resolve_def split: option.splits)

lemma probing_start_resume [simp]: "probing (start_resume r w) = probing w"
  by (cases rule: start_resume_cases [of w r]) (simp_all add: start_spawn_def)

lemma probing_step:
  "probing (step e w) =
     (case e of
        CallStart \<Rightarrow> probing (snd (start w))
      | ServerListening r \<Rightarrow> removeAll r (probing w)
      | ServerError r err \<Rightarrow> removeAll r (probing w)
      | _ \<Rightarrow> probing w)"
  by (cases e)
     (simp_all add: step.simps on_stdout_data_def on_stderr_data_def on_error_def
        on_startup_timeout_def)

lemma probing_start:
  "probing (snd (start w)) = probing w
   \<or> (probing (snd (start w)) = probing w @ [length (promises w)]
       \<and> snd (start w)
           = w\<lparr>this := (this w)\<lparr>startupPromise := Some (length (promises w))\<rparr>,
               promises := promises w @ [Pending],
               probing := probing w @ [length (promises w)],
               trace := trace w @ [Listen (port (config (this w))) ''127.0.0.1'']\<rparr>)"
  by (simp add: start_def start_private_def split: option.splits)

lemma fresh_start:
  assumes "ids_bounded w"
  shows "probe_fresh (length (promises w))
           (w\<lparr>this := t, promises := promises w @ [Pending],
              probing := probing w @ [length (promises w)],
              trace := trace w @ [Listen a b]\<rparr>)"
proof -
  have "filter (\<lambda>e. case e of CallResolve q \<Rightarrow> q = length (promises w)
                       | CallReject q _ \<Rightarrow> q = length (promises w) | _ \<Rightarrow> False) (trace w) = []"
    using assms by (auto simp: ids_bounded_iff filter_empty_conv split: effect.splits)
  then show ?thesis
    using assms by (auto simp: probe_fresh_def free_iff ids_bounded_iff settlements_def)
qed

lemma probes_step:
  assumes "ids_bounded w" "distinct (probing w)" "\<forall>q \<in> set (probing w). probe_fresh q w"
  shows "distinct (probing (step e w))
     \<and> (\<forall>q \<in> set (probing (step e w)). probe_fresh q (step e w))"
proof -
  have old: "probe_fresh q (step e w)"
    if "q \<in> set (probing w)" "e \<noteq> ServerListening q" "\<forall>err. e \<noteq> ServerError q err" for q
  proof -
    have f: "probe_fresh q w" using assms(3) that(1) by simp
    then have "kept q w (step e w)" using that(2,3) by (intro kept_step) (simp add: probe_fresh_def)
    then show ?thesis using f by (simp add: kept_def probe_fresh_def)
  qed
  show ?thesis
  proof (cases e)
    case CallStart
    show ?thesis
      using probing_start [of w]
    proof
      assume "probing (snd (start w)) = probing w"
      then show ?thesis using assms(2) old CallStart by (simp add: probing_step)
    next
      assume a: "probing (snd (start w)) = probing w @ [length (promises w)]
         \<and> snd (start w)
           = w\<lparr>this := (this w)\<lparr>startupPromise := Some (length (promises w))\<rparr>,
               promises := promises w @ [Pending],
               probing := probing w @ [length (promises w)],
               trace := trace w @ [Listen (port (config (this w))) ''127.0.0.1'']\<rparr>"
      have n: "length (promises w) \<notin> set (probing w)"
        using assms(1) by (auto simp: ids_bounded_iff)
      have "probe_fresh (length (promises w)) (step e w)"
        using a fresh_start [OF assms(1)] CallStart by (simp add: step.simps)
      then show ?thesis
        using a n assms(2) old CallStart by (auto simp: probing_step)
    qed
  next
    case (ServerListening r)
    then show ?thesis using assms(2) old by (auto simp: probing_step distinct_removeAll)
  next
    case (ServerError r err)
    then show ?thesis using assms(2) old by (auto simp: probing_step distinct_removeAll)
  qed (use assms(2) old in \<open>simp_all add: probing_step\<close>)
qed


subsection \<open>Attempts\<close>

lemma children_stop [simp]: "children (snd (stop w)) = children w"
  by (simp add: stop_def split: option.splits)

lemma children_stop_timeout [simp]: "children (stop_timeout i w) = children w"
  by (simp add: stop_timeout_def resolve_def split: option.splits)

lemma children_start [simp]: "children (snd (start w)) = children w"
  by (simp add: start_def start_private_def split: option.splits)

lemma resolved_doResolve:
  "length (children (doResolve d w)) = length (children w)
   \<and> (resolved (children w ! c) \<longrightarrow> resolved (children (doResolve d w) ! c))"
  by (cases "d < length (children w)"; cases "c = d")
     (simp_all add: doResolve_def cleanup_def resolve_def Let_def)

lemma resolved_doReject:
  "length (children (doReject d e w)) = length (children w)
   \<and> (resolved (children w ! c) \<longrightarrow> resolved (children (doReject d e w) ! c))"
  by (cases "d < length (children w)"; cases "c = d")
     (simp_all add: doReject_def cleanup_def reject_def Let_def)

lemma resolved_on_exit:
  "length (children (on_exit d k w)) = length (children w)
   \<and> (resolved (children w ! c) \<longrightarrow> resolved (children (on_exit d k w) ! c))"
  using resolved_doReject [of d _ "w\<lparr>this := (this w)\<lparr>isRunning := False, process := None\<rparr>\<rparr>" c]
  by (simp add: on_exit_def Let_def)

lemma resolved_step:
  assumes "c < length (children w)" "resolved (children w ! c)"
  shows "resolved (children (step e w) ! c)"
proof (cases e)
  case (ServerListening r)
  have "resolved (children (start_resume r v) ! c)"
    if "c < length (children v)" "resolved (children v ! c)" for v
    using that
    by (cases rule: start_resume_cases [of v r]) (simp_all add: start_spawn_def nth_append)
  then show ?thesis using assms ServerListening by (simp add: step.simps)
next
  case (StartupTimeout d)
  show ?thesis
  proof (cases "d < length (children w) \<and> startupTimeout (children w ! d) \<noteq> None")
    case True
    let ?w1 = "w\<lparr>children := (children w)[d := (children w ! d)\<lparr>startupTimeout := None\<rparr>]\<rparr>"
    have "resolved (children ?w1 ! c)" using assms True by (cases "c = d") simp_all
    then show ?thesis
      using True StartupTimeout resolved_doReject [of d _ ?w1 c]
      by (simp add: step.simps on_startup_timeout_def)
  next
    case False
    then show ?thesis using assms StartupTimeout by (auto simp: step.simps)
  qed
qed (use assms resolved_doResolve [of d w c for d] resolved_doReject [of d _ w c for d]
       resolved_on_exit [of d _ w c for d]
     in \<open>simp_all add: step.simps on_stdout_data_def on_stderr_data_def on_error_def\<close>)

lemma length_children_start_resume:
  "length (children (start_resume r w))
     = (if dirs_ready w then Suc (length (children w)) else length (children w))"
  by (cases rule: start_resume_cases [of w r]) (simp_all add: start_spawn_def dirs_ready_def)

lemma length_children_step:
  "length (children (step e w)) =
     (case e of
        ServerListening r \<Rightarrow> if r \<in> set (probing w) \<and> dirs_ready w
                             then Suc (length (children w)) else length (children w)
      | _ \<Rightarrow> length (children w))"
  using resolved_doResolve [of d w 0 for d] resolved_doReject [of d _ w 0 for d]
    resolved_on_exit [of d _ w 0 for d]
    resolved_doReject [of d _ "w\<lparr>children := (children w)[d := (children w ! d)\<lparr>startupTimeout := None\<rparr>]\<rparr>" 0 for d]
  by (cases e)
     (simp_all add: step.simps on_stdout_data_def on_stderr_data_def on_error_def
        on_startup_timeout_def length_children_start_resume)

lemma spawn_unsettled:
  assumes "r \<in> set (probing w)" "probe_fresh r w" "dirs_ready w"
  shows "unsettled (length (children w)) r (step (ServerListening r) w)"
proof -
  let ?w1 = "w\<lparr>probing := removeAll r (probing w), trace := trace w @ [ServerClose]\<rparr>"
  have "unsettled (length (children w)) r (start_resume r ?w1)"
  proof (cases rule: start_resume_cases [of ?w1 r])
    case (spawn ds xs)
    then show ?thesis
      using assms(2)
      by (auto simp: unsettled_def sole_settler_iff probe_fresh_def free_iff start_spawn_def
            settlements_def nth_append)
  next
    case (throw e ds xs)
    then show ?thesis using assms(3) by simp
  qed
  then show ?thesis using assms(1) by (simp add: step.simps)
qed

lemma attempts_step:
  assumes "\<forall>q \<in> set (probing w). probe_fresh q w"
    and "\<forall>c < length (children w).
           resolved (children w ! c) \<or> unsettled c (settles (children w ! c)) w"
    and "c < length (children (step e w))"
  shows "resolved (children (step e w) ! c)
     \<or> unsettled c (settles (children (step e w) ! c)) (step e w)"
proof (cases "c < length (children w)")
  case True
  show ?thesis
  proof (cases "resolved (children w ! c)")
    case r: True
    then show ?thesis using True by (simp add: resolved_step)
  next
    case False
    let ?p = "settles (children w ! c)"
    have u: "unsettled c ?p w" using assms(2) True False by blast
    show ?thesis
    proof (cases "is_signal c e")
      case s: True
      then have "settled_as c ?p (outcome e) (step e w)" using u by (simp add: signal_settles)
      then show ?thesis by (simp add: settled_as_def)
    next
      case s: False
      then have v: "unsettled c ?p (step e w)" using u by (simp add: unsettled_step)
      then have "settles (children (step e w) ! c) = ?p"
        by (simp add: unsettled_def sole_settler_iff)
      then show ?thesis using v by simp
    qed
  qed
next
  case False
  then obtain r where e: "e = ServerListening r" and r: "r \<in> set (probing w)"
    and c: "c = length (children w)" and d: "dirs_ready w"
    using assms(3) by (auto simp: length_children_step split: event.splits if_splits)
  have u: "unsettled c r (step e w)" using spawn_unsettled [OF r _ d] assms(1) r e c by simp
  then have "settles (children (step e w) ! c) = r" by (simp add: unsettled_def sole_settler_iff)
  then show ?thesis using u by simp
qed

lemma consistent_iff:
  "consistent w =
     (ids_bounded w \<and> distinct (probing w) \<and> (\<forall>q \<in> set (probing w). probe_fresh q w)
      \<and> (\<forall>c < length (children w).
            resolved (children w ! c) \<or> unsettled c (settles (children w ! c)) w))"
  by (auto simp: consistent_def list_all_iff)

lemma consistent_step: "consistent w \<Longrightarrow> consistent (step e w)"
  unfolding consistent_iff
  using ids_bounded_step [of w e] probes_step [of w e] attempts_step [of w _ e]
  by blast

lemma consistent_boot: "consistent (boot nd ds c)"
  by (simp add: consistent_iff ids_bounded_iff boot_def constructor_def)

lemma consistent_run: "consistent w \<Longrightarrow> consistent (run es w)"
  by (induction es arbitrary: w) (simp_all add: run_def consistent_step)

lemma reachable_unsettled:
  assumes "w = run es (boot nd ds cfg)" "c < length (children w)" "\<not> resolved (children w ! c)"
  shows "unsettled c (settles (children w ! c)) w"
  using consistent_run [OF consistent_boot, of es nd ds cfg] assms
  by (auto simp: consistent_iff)

lemma reachable_allocated:
  assumes "w = run es (boot nd ds cfg)"
  shows "promises_allocated w" "process (this w) = Some c \<Longrightarrow> c < length (children w)"
  using consistent_run [OF consistent_boot, of es nd ds cfg] assms
  by (auto simp: consistent_iff ids_bounded_def promises_allocated_def split: option.splits)

section \<open>Every reachable world follows the life cycle\<close>

lemma all_resolved_iff: "all_resolved w = (\<forall>c < length (children w). resolved (children w ! c))"
  by (simp add: all_resolved_def list_all_length)

lemma butlast_resolved_iff:
  "list_all resolved (butlast ks) = (\<forall>c. Suc c < length ks \<longrightarrow> resolved (ks ! c))"
  by (auto simp: list_all_length nth_butlast)

lemma lifecycle_stop: "lifecycle w \<Longrightarrow> lifecycle (snd (stop w))"
proof (cases "process (this w)")
  case None
  then show "lifecycle w \<Longrightarrow> ?thesis" by (simp add: stop_def)
next
  case (Some c)
  show "lifecycle w \<Longrightarrow> ?thesis"
  proof (cases "isRunning (this w)")
    case False
    then show "lifecycle w \<Longrightarrow> ?thesis" using Some by (simp add: stop_def)
  next
    case True
    assume l: "lifecycle w"
    have "snd (stop w) = w\<lparr>promises := promises w @ [Pending],
               stops := stops w @ [\<lparr>target = c, timeout = Some 5000, listening = True,
                                     resolves = length (promises w)\<rparr>],
               trace := trace w @ [Kill c SIGTERM]\<rparr>"
      using Some True by (simp add: stop_def)
    then show ?thesis
      using l Some True
      by (simp add: lifecycle_def all_resolved_def live_def)
  qed
qed


lemma lifecycle_start:
  assumes "lifecycle w"
  shows "lifecycle (snd (start w))"
proof (cases "enabled (config (this w)) \<and> startupPromise (this w) = None")
  case False
  then show ?thesis using assms by (auto simp: start_def split: option.splits)
next
  case True
  then have r: "\<not> isRunning (this w)" using assms by (simp add: lifecycle_def)
  show ?thesis
  proof (cases "0 \<le> port (config (this w)) \<and> port (config (this w)) < 65536")
    case valid: True
    have "snd (start w) =
        w\<lparr>this := (this w)\<lparr>startupPromise := Some (length (promises w))\<rparr>,
          promises := promises w @ [Pending],
          probing := probing w @ [length (promises w)],
          trace := trace w @ [Listen (port (config (this w))) ''127.0.0.1'']\<rparr>"
      using True r valid by (simp add: start_def start_private_def)
    then show ?thesis
      using assms True r by (simp add: lifecycle_def all_resolved_def live_def)
  next
    case False
    then have "snd (start w) =
        w\<lparr>this := (this w)\<lparr>startupPromise := Some (length (promises w))\<rparr>,
          promises := promises w @ [Rejected (SocketBadPort (port (config (this w))))]\<rparr>"
      using True r by (auto simp: start_def start_private_def)
    then show ?thesis
      using assms True r by (simp add: lifecycle_def all_resolved_def live_def)
  qed
qed


lemma not_live_all: "\<not> list_ex P xs \<Longrightarrow> list_all (\<lambda>s. P s \<longrightarrow> Q s) xs"
  by (induction xs) auto

lemma update_last: "Suc d = length xs \<Longrightarrow> xs[d := x] = butlast xs @ [x]"
  by (induction xs arbitrary: d) (auto split: nat.splits)

lemma probing_single:
  assumes "lifecycle w" "r \<in> set (probing w)"
  shows "probing w = [r]"
  using assms unfolding lifecycle_def by (cases "probing w") auto

lemma lifecycle_listening:
  assumes "lifecycle w"
  shows "lifecycle (step (ServerListening r) w)"
proof (cases "r \<in> set (probing w)")
  case True
  note p = probing_single [OF assms True]
  let ?k = "\<lparr>startupTimeout = Some 30000, resolved = False, settles = r\<rparr>"
  let ?w1 = "w\<lparr>probing := removeAll r (probing w), trace := trace w @ [ServerClose]\<rparr>"
  have st: "step (ServerListening r) w = start_resume r ?w1" using True by (simp add: step.simps)
  have old: "\<not> isRunning (this w)" "list_all resolved (children w)"
    "\<not> list_ex listening (stops w)" "startupPromise (this w) = Some r"
    using assms p by (simp_all add: lifecycle_def all_resolved_def live_def)
  show ?thesis
  proof (cases rule: start_resume_cases [of ?w1 r])
    case (spawn ds xs)
    have c: "children (step (ServerListening r) w) = children w @ [?k]"
      and q0: "probing (step (ServerListening r) w) = removeAll r (probing w)"
      and s: "stops (step (ServerListening r) w) = stops w"
      and t: "this (step (ServerListening r) w)
                = (this w)\<lparr>process := Some (length (children w))\<rparr>"
      by (simp_all add: st spawn(2) start_spawn_def)
    have q: "probing (step (ServerListening r) w) = []" using q0 p by simp
    show ?thesis
      unfolding lifecycle_def all_resolved_def live_def c q s t
      using old not_live_all [OF old(3)] by simp
  next
    case (throw e ds xs)
    have "removeAll r (probing w) = []" using p by simp
    then have "lifecycle (start_resume r ?w1) = lifecycle (w\<lparr>probing := []\<rparr>)"
      unfolding throw(2) lifecycle_def all_resolved_def live_def by simp
    moreover have "lifecycle (w\<lparr>probing := []\<rparr>)"
      using assms old unfolding lifecycle_def all_resolved_def live_def
      by (simp (no_asm_use)) blast
    ultimately show ?thesis by (simp add: st)
  qed
next
  case False
  then show ?thesis using assms by (simp add: step.simps)
qed

lemma lifecycle_server_error:
  assumes "lifecycle w"
  shows "lifecycle (step (ServerError r err) w)"
proof (cases "r \<in> set (probing w)")
  case True
  note p = probing_single [OF assms True]
  have "startupPromise (this w) = Some r" using assms p by (simp add: lifecycle_def)
  then show ?thesis
    using assms True p by (simp add: step.simps lifecycle_def all_resolved_def live_def)
next
  case False
  then show ?thesis using assms by (simp add: step.simps)
qed

lemma unresolved_last:
  assumes "lifecycle w" "d < length (children w)" "\<not> resolved (children w ! d)"
  shows "Suc d = length (children w)" "\<not> isRunning (this w)" "\<not> list_ex listening (stops w)"
    "probing w = []" "startupPromise (this w) = Some (settles (children w ! d))"
    "list_all resolved (butlast (children w))"
proof -
  have a: "\<forall>c. Suc c < length (children w) \<longrightarrow> resolved (children w ! c)"
    using assms(1) by (simp add: lifecycle_def butlast_resolved_iff)
  then show s: "Suc d = length (children w)" using assms(2,3) by (metis Suc_lessI)
  have n: "\<not> all_resolved w" using assms(2,3) by (auto simp: all_resolved_iff)
  have l: "last (children w) = children w ! d"
    using s by (cases "children w" rule: rev_cases) (auto simp: nth_append)
  show "\<not> isRunning (this w)" "\<not> list_ex listening (stops w)"
    "startupPromise (this w) = Some (settles (children w ! d))"
    "list_all resolved (butlast (children w))"
    using assms(1) n l by (simp_all add: lifecycle_def live_def)
  show "probing w = []" using assms(1) n by (auto simp: lifecycle_def)
qed

lemma doResolve_eq:
  "d < length (children w) \<Longrightarrow> \<not> resolved (children w ! d) \<Longrightarrow>
   doResolve d w =
     w\<lparr>children := (children w)[d := (children w ! d)\<lparr>resolved := True,
                                                      startupTimeout := None\<rparr>],
       this := (this w)\<lparr>isRunning := True\<rparr>,
       promises := settle (settles (children w ! d)) Fulfilled (promises w),
       trace := trace w @ [CallResolve (settles (children w ! d))]\<rparr>"
  by (simp add: doResolve_def cleanup_def resolve_def Let_def)

lemma doReject_eq:
  "d < length (children w) \<Longrightarrow> \<not> resolved (children w ! d) \<Longrightarrow> \<not> isRunning (this w) \<Longrightarrow>
   doReject d e w =
     w\<lparr>children := (children w)[d := (children w ! d)\<lparr>resolved := True,
                                                      startupTimeout := None\<rparr>],
       promises := settle (settles (children w ! d)) (Rejected e) (promises w),
       trace := trace w @ [CallReject (settles (children w ! d)) e]\<rparr>"
  by (simp add: doReject_def cleanup_def reject_def stop_def Let_def split: option.splits)

lemma lifecycle_doResolve:
  assumes "lifecycle w" "d < length (children w)"
  shows "lifecycle (doResolve d w)"
proof (cases "resolved (children w ! d)")
  case True
  then show ?thesis using assms by (simp add: doResolve_def)
next
  case False
  note u = unresolved_last [OF assms False]
  have h: "process (this w) = None
      \<or> map_option Suc (process (this w)) = Some (length (children w))"
    "list_all (\<lambda>s. listening s \<longrightarrow> Suc (target s) = length (children w)) (stops w)"
    using assms(1) by (simp_all add: lifecycle_def)
  show ?thesis
    unfolding doResolve_eq [OF assms(2) False] update_last [OF u(1)]
    using u(2-) h not_live_all [OF u(3)]
    by (simp add: lifecycle_def all_resolved_def live_def u(1) [symmetric])
qed

lemma lifecycle_doReject:
  assumes "lifecycle w" "d < length (children w)"
  shows "lifecycle (doReject d e w)"
proof (cases "resolved (children w ! d)")
  case True
  then show ?thesis using assms by (simp add: doReject_def)
next
  case False
  note u = unresolved_last [OF assms False]
  have h: "process (this w) = None
      \<or> map_option Suc (process (this w)) = Some (length (children w))"
    "list_all (\<lambda>s. listening s \<longrightarrow> Suc (target s) = length (children w)) (stops w)"
    using assms(1) by (simp_all add: lifecycle_def)
  show ?thesis
    unfolding doReject_eq [OF assms(2) False u(2)] update_last [OF u(1)]
    using u(2-) h not_live_all [OF u(3)]
    by (simp add: lifecycle_def all_resolved_def live_def u(1) [symmetric])
qed

lemma lifecycle_idle:
  "lifecycle w \<Longrightarrow> lifecycle (w\<lparr>this := (this w)\<lparr>isRunning := False, process := None\<rparr>\<rparr>)"
  unfolding lifecycle_def all_resolved_def live_def by (simp (no_asm_use)) blast

lemma lifecycle_on_exit:
  assumes "lifecycle w" "d < length (children w)"
  shows "lifecycle (on_exit d k w)"
proof -
  let ?w1 = "w\<lparr>this := (this w)\<lparr>isRunning := False, process := None\<rparr>\<rparr>"
  have "lifecycle ?w1" using assms(1) by (rule lifecycle_idle)
  then have "lifecycle (doReject d e ?w1)" for e
    using assms(2) by (intro lifecycle_doReject) simp_all
  then show ?thesis
    using \<open>lifecycle ?w1\<close> by (simp add: on_exit_def Let_def)
qed

lemma lifecycle_timer:
  assumes "lifecycle w" "d < length (children w)"
  shows "lifecycle (w\<lparr>children := (children w)[d := (children w ! d)\<lparr>startupTimeout := None\<rparr>]\<rparr>)"
proof -
  let ?ks = "(children w)[d := (children w ! d)\<lparr>startupTimeout := None\<rparr>]"
  have m: "map resolved ?ks = map resolved (children w)"
    using assms(2) by (simp add: map_update list_update_same_conv)
  have a: "list_all resolved ?ks = list_all resolved (children w)"
    using arg_cong [OF m, of "list_all id"] by (simp add: list_all_iff)
  have b: "list_all resolved (butlast ?ks) = list_all resolved (butlast (children w))"
    using arg_cong [OF m, of "\<lambda>xs. list_all id (butlast xs)"]
    by (simp add: list_all_iff map_butlast [symmetric])
  have c: "settles (last ?ks) = settles (last (children w))"
    using assms(2) by (cases "children w" rule: rev_cases) (auto simp: nth_append list_update_append)
  have "lifecycle (w\<lparr>children := ?ks\<rparr>) = lifecycle w"
    unfolding lifecycle_def all_resolved_def live_def by (simp add: a b c)
  then show ?thesis using assms(1) by (simp only:)
qed

lemma lifecycle_stop_timeout:
  assumes "lifecycle w" "i < length (stops w)"
  shows "lifecycle (stop_timeout i (w\<lparr>stops := (stops w)[i := (stops w ! i)\<lparr>timeout := None\<rparr>]\<rparr>))"
proof -
  let ?ss = "(stops w)[i := (stops w ! i)\<lparr>timeout := None\<rparr>]"
  have m: "map (\<lambda>s. (listening s, target s)) ?ss = map (\<lambda>s. (listening s, target s)) (stops w)"
    using assms(2) by (simp add: map_update list_update_same_conv)
  have a: "list_ex listening ?ss = list_ex listening (stops w)"
    using arg_cong [OF m, of "list_ex fst"] by (simp add: list_ex_iff)
  have b: "list_all (\<lambda>s. listening s \<longrightarrow> Suc (target s) = n) ?ss
      = list_all (\<lambda>s. listening s \<longrightarrow> Suc (target s) = n) (stops w)" for n
    using arg_cong [OF m, of "list_all (\<lambda>p. fst p \<longrightarrow> Suc (snd p) = n)"]
    by (simp add: list_all_iff)
  have "lifecycle (stop_timeout i (w\<lparr>stops := ?ss\<rparr>)) = lifecycle w"
    unfolding lifecycle_def all_resolved_def live_def
    by (cases "process (this w)") (simp_all add: stop_timeout_def resolve_def a b)
  then show ?thesis using assms(1) by (simp only:)
qed

lemma fold_stop_exit_shape:
  "\<forall>j \<in> set js. j < length (stops w) \<Longrightarrow>
   children (fold stop_exit js w) = children w \<and> probing (fold stop_exit js w) = probing w
   \<and> length (stops (fold stop_exit js w)) = length (stops w)
   \<and> (\<forall>i < length (stops w).
         listening (stops (fold stop_exit js w) ! i) = (listening (stops w ! i) \<and> i \<notin> set js))
   \<and> this (fold stop_exit js w)
       = (if js = [] then this w
          else (this w)\<lparr>isRunning := False, process := None, startupPromise := None\<rparr>)"
proof (induction js arbitrary: w)
  case Nil
  then show ?case by simp
next
  case (Cons j js)
  let ?v = "stop_exit j w"
  have j: "j < length (stops w)" using Cons.prems by simp
  have v: "children ?v = children w" "probing ?v = probing w"
    "stops ?v = (stops w)[j := (stops w ! j)\<lparr>timeout := None, listening := False\<rparr>]"
    by (simp_all add: stop_exit_def resolve_def)
  have b: "\<forall>i \<in> set js. i < length (stops ?v)" using Cons.prems by (simp add: v)
  note ih = Cons.IH [OF b]
  have l: "\<forall>i < length (stops w).
      listening (stops (fold stop_exit js ?v) ! i) = (listening (stops w ! i) \<and> i \<notin> set (j # js))"
    using ih j by (auto simp: v nth_list_update)
  show ?case
    using ih l by (simp add: v this_stop_exit)
qed

lemma lifecycle_exit_listeners:
  assumes "lifecycle x" "stops x = stops w" "d < length (children x)"
  shows "lifecycle (fold stop_exit (exit_listeners d w) x)"
proof (cases "exit_listeners d w = []")
  case True
  then show ?thesis using assms(1) by simp
next
  case False
  let ?js = "exit_listeners d w"
  let ?y = "fold stop_exit ?js x"
  have b: "\<forall>j \<in> set ?js. j < length (stops x)"
    using exit_listeners_bound [of d w] assms(2) by simp
  note sh = fold_stop_exit_shape [OF b]
  obtain i where "i \<in> set ?js" using False by (cases ?js) auto
  then have i: "i < length (stops x)" "target (stops x ! i) = d" "listening (stops x ! i)"
    using assms(2) by (simp_all add: exit_listeners_def)
  then have lv: "list_ex listening (stops x)" by (auto simp: list_ex_length)
  have tg: "\<forall>i < length (stops x). listening (stops x ! i) \<longrightarrow> Suc (target (stops x ! i)) = length (children x)"
    using assms(1) by (simp add: lifecycle_def list_all_length)
  then have sd: "Suc d = length (children x)" using i by blast
  have al: "list_all resolved (children x)" and pr: "probing x = []"
    and bl: "list_all resolved (butlast (children x))"
    using assms(1) lv by (auto simp: lifecycle_def all_resolved_def live_def)
  have nl: "\<not> list_ex listening (stops ?y)"
  proof -
    have "\<not> listening (stops ?y ! i)" if "i < length (stops ?y)" for i
    proof -
      have ix: "i < length (stops x)" using that sh by simp
      show ?thesis
      proof (cases "listening (stops x ! i)")
        case True
        then have "target (stops x ! i) = d" using tg ix sd by auto
        then have "i \<in> set ?js" using True ix assms(2) by (simp add: exit_listeners_def)
        then show ?thesis using sh ix by simp
      next
        case False
        then show ?thesis using sh ix by simp
      qed
    qed
    then show ?thesis by (auto simp: list_ex_length)
  qed
  show ?thesis
    unfolding lifecycle_def all_resolved_def live_def
    using sh False al pr bl nl not_live_all [OF nl] by simp
qed

lemma stops_on_exit: "stops (on_exit d k w) = stops w"
  by (simp add: on_exit_def doReject_def cleanup_def reject_def stop_def Let_def)

lemma length_children_on_exit: "length (children (on_exit d k w)) = length (children w)"
  by (simp add: on_exit_def doReject_def cleanup_def reject_def stop_def Let_def)

lemma lifecycle_step:
  assumes "lifecycle w"
  shows "lifecycle (step e w)"
proof (cases e)
  case CallStart
  then show ?thesis using assms by (simp add: step.simps lifecycle_start)
next
  case CallStop
  then show ?thesis using assms by (simp add: step.simps lifecycle_stop)
next
  case (ServerListening r)
  then show ?thesis using assms by (simp add: lifecycle_listening)
next
  case (ServerError r err)
  then show ?thesis using assms by (simp add: lifecycle_server_error)
next
  case (StdoutData d out)
  then show ?thesis using assms by (simp add: step.simps on_stdout_data_def lifecycle_doResolve)
next
  case (StderrData d out)
  then show ?thesis using assms by (simp add: step.simps on_stderr_data_def lifecycle_doResolve)
next
  case (ChildError d msg)
  then show ?thesis using assms by (simp add: step.simps on_error_def lifecycle_doReject)
next
  case (ChildExit d k)
  show ?thesis
  proof (cases "d < length (children w)")
    case True
    have "lifecycle (on_exit d k w)" using assms True by (rule lifecycle_on_exit)
    then have "lifecycle (fold stop_exit (exit_listeners d w) (on_exit d k w))"
      using True by (intro lifecycle_exit_listeners) (simp_all add: stops_on_exit length_children_on_exit)
    then show ?thesis using True ChildExit by (simp add: step.simps)
  next
    case False
    then show ?thesis using assms ChildExit by (simp add: step.simps)
  qed
next
  case (StartupTimeout d)
  show ?thesis
  proof (cases "d < length (children w) \<and> startupTimeout (children w ! d) \<noteq> None")
    case True
    let ?w1 = "w\<lparr>children := (children w)[d := (children w ! d)\<lparr>startupTimeout := None\<rparr>]\<rparr>"
    have "lifecycle ?w1" using assms True by (simp add: lifecycle_timer)
    then have "lifecycle (doReject d e' ?w1)" for e'
      using True by (intro lifecycle_doReject) simp_all
    then show ?thesis
      using True StartupTimeout by (simp add: step.simps on_startup_timeout_def)
  next
    case False
    then show ?thesis using assms StartupTimeout by (auto simp: step.simps)
  qed
next
  case (StopTimeout i)
  then show ?thesis using assms by (auto simp: step.simps lifecycle_stop_timeout)
qed

lemma lifecycle_boot: "lifecycle (boot nd ds c)"
  by (simp add: lifecycle_def all_resolved_def live_def boot_def constructor_def)

lemma lifecycle_run: "lifecycle w \<Longrightarrow> lifecycle (run es w)"
  by (induction es arbitrary: w) (simp_all add: run_def lifecycle_step)

lemma reachable_starting:
  assumes "w = run es (boot nd ds cfg)" "c < length (children w)" "\<not> resolved (children w ! c)"
  shows "\<not> isRunning (this w)" "startupPromise (this w) = Some (settles (children w ! c))"
    "Suc c = length (children w)"
  using unresolved_last [OF lifecycle_run [OF lifecycle_boot, of es nd ds cfg]] assms
  by simp_all

section \<open>The startup attempt and the stop of a running process\<close>

lemma starting_attempt:
  "0 < length (children starting)" "\<not> resolved (children starting ! 0)"
  "settles (children starting ! 0) = 0"
  by (simp_all add: starting_eq)

lemma String_code_1: "String_code (Some 1) = ''1''"
  by (simp add: String_code_def String_int_def digits.simps)

text \<open>
  C1. Take any world a freshly constructed controller can reach, a process spawned in
  it whose startup has not settled (its \<^verbatim>\<open>resolved\<close> flag is false), and any sequence of
  further events whatsoever. The promise of the attempt is the one \<^verbatim>\<open>startupPromise\<close>
  holds, which \<^verbatim>\<open>start()\<close> returns. If the sequence holds no signal of that process (a chunk
  with the marker on stdout or stderr, the \<^verbatim>\<open>error\<close> event, the \<^verbatim>\<open>exit\<close> event, the
  startup timer), the promise of the attempt is still pending and neither \<^verbatim>\<open>resolve\<close>
  nor \<^verbatim>\<open>reject\<close> has been called for it. Otherwise the first signal decides: the
  promise is in the state that signal settles it to (fulfilled for a marker chunk,
  rejected with the signal's error otherwise), exactly one call of \<^verbatim>\<open>resolve\<close> or
  \<^verbatim>\<open>reject\<close> has been made, and both stay so whatever events come later.
\<close>

theorem startup_settles_exactly_once:
  assumes "w = run es0 (boot nd ds cfg)" and "c < length (children w)"
    and "\<not> resolved (children w ! c)"
  shows "startupPromise (this w) = Some (settles (children w ! c))
     \<and> (case find (is_signal c) es of
           None \<Rightarrow> promises (run es w) ! settles (children w ! c) = Pending
                  \<and> settlements (settles (children w ! c)) (run es w) = 0
         | Some e \<Rightarrow>
             promises (run es w) ! settles (children w ! c) = outcome e
             \<and> settlements (settles (children w ! c)) (run es w) = 1
             \<and> outcome e \<noteq> Pending \<and> (outcome e = Fulfilled) = is_chunk c e
             \<and> (\<forall>fs. promises (run (es @ fs) w) ! settles (children w ! c) = outcome e
                      \<and> settlements (settles (children w ! c)) (run (es @ fs) w) = 1))"
  using first_signal_general [OF reachable_unsettled [OF assms]]
    reachable_starting(2) [OF assms]
  by simp

text \<open>
  C1 at the concrete run, whose \<^verbatim>\<open>startupPromise\<close> is the promise of the attempt: some
  output, then the exit with code 1, then the marker, then the timer. The exit decides.
\<close>

theorem startup_settles_exactly_once_witness:
  "0 < length (children starting) \<and> \<not> resolved (children starting ! 0)
   \<and> startupPromise (this starting) = Some (settles (children starting ! 0))
   \<and> promises (run [StdoutData 0 ''MongoDB starting'', ChildExit 0 (Some 1),
                     StderrData 0 ''waiting for connections'', StartupTimeout 0] starting) ! 0
       = Rejected (Error ''MongoDB subprocess exited with code 1 before starting'')
   \<and> settlements 0 (run [StdoutData 0 ''MongoDB starting'', ChildExit 0 (Some 1),
                         StderrData 0 ''waiting for connections'', StartupTimeout 0] starting) = 1"
proof -
  show ?thesis
    using startup_settles_exactly_once [OF starting_def starting_attempt(1,2),
        of "[StdoutData 0 ''MongoDB starting'', ChildExit 0 (Some 1),
             StderrData 0 ''waiting for connections'', StartupTimeout 0]"]
      starting_attempt
    by (simp add: String_code_1)
qed

text \<open>
  C7 as stated fails: \<^verbatim>\<open>WAITING FOR CONNECTIONS\<close> contains the phrase when case is
  ignored, and the chunk changes nothing on either stream: the promise stays pending.
\<close>

theorem capitals_not_recognised:
  "includes_ignoring_case ''WAITING FOR CONNECTIONS'' ''Waiting for connections''
   \<and> promises starting ! 0 = Pending
   \<and> step (StdoutData 0 ''WAITING FOR CONNECTIONS'') starting = starting
   \<and> step (StderrData 0 ''WAITING FOR CONNECTIONS'') starting = starting"
  by (simp add: starting_eq world_defs includes_ignoring_case_def lowercase_def)

text \<open>
  C7, amended. In any reachable world, for a spawned process whose startup has not
  settled, a chunk on stdout or on stderr fulfils the promise of the attempt exactly
  when it contains \<^verbatim>\<open>Waiting for connections\<close> or \<^verbatim>\<open>waiting for connections\<close>, and leaves
  it pending otherwise; whatever events follow, \<^verbatim>\<open>resolve\<close> is called at most once for
  the promise.
\<close>

theorem readiness_marker_two_spellings:
  assumes "w = run es0 (boot nd ds cfg)" and "c < length (children w)"
    and "\<not> resolved (children w ! c)"
  shows "promises (step (StdoutData c output) w) ! settles (children w ! c)
           = (if includes_str output ''Waiting for connections''
                 \<or> includes_str output ''waiting for connections''
              then Fulfilled else Pending)
     \<and> promises (step (StderrData c output) w) ! settles (children w ! c)
           = (if includes_str output ''Waiting for connections''
                 \<or> includes_str output ''waiting for connections''
              then Fulfilled else Pending)
     \<and> resolutions (settles (children w ! c)) (run es w) \<le> 1"
  using marker_general [OF reachable_unsettled [OF assms]] .

text \<open>C7, amended, at the concrete run.\<close>

theorem readiness_marker_two_spellings_witness:
  "0 < length (children starting) \<and> \<not> resolved (children starting ! 0)
   \<and> promises (step (StdoutData 0 ''[initandlisten] waiting for connections on port 27017'')
                 starting) ! 0 = Fulfilled
   \<and> promises (step (StderrData 0 ''Waiting for connections'') starting) ! 0 = Fulfilled
   \<and> promises (step (StderrData 0 ''Waiting  for connections'') starting) ! 0 = Pending
   \<and> resolutions 0 (run [StderrData 0 ''Waiting for connections'',
                         StdoutData 0 ''waiting for connections''] starting) \<le> 1"
  using readiness_marker_two_spellings [OF starting_def starting_attempt(1,2),
      of "''[initandlisten] waiting for connections on port 27017''"
         "[StderrData 0 ''Waiting for connections'', StdoutData 0 ''waiting for connections'']"]
    readiness_marker_two_spellings [OF starting_def starting_attempt(1,2),
      of "''Waiting for connections''" "[]"]
    readiness_marker_two_spellings [OF starting_def starting_attempt(1,2),
      of "''Waiting  for connections''" "[]"]
    starting_attempt
  by simp

text \<open>
  C5. In any reachable world where a process handle exists and \<^verbatim>\<open>isRunning\<close> holds,
  \<^verbatim>\<open>stop()\<close> sends SIGTERM to the process and returns a pending promise, with a grace
  timer of 5000 ms armed. If the process exits, the promise is fulfilled and the timer
  is cleared. If the timer fires first, SIGKILL is sent to the process and the promise
  is fulfilled. Whatever events follow the call, the promise is never rejected.
\<close>

theorem stop_of_running_process:
  assumes "w = run es0 (boot nd ds cfg)" and "process (this w) = Some c"
    and "isRunning (this w)"
  shows "fst (stop w) = Awaits (length (promises w))
     \<and> trace (snd (stop w)) = trace w @ [Kill c SIGTERM]
     \<and> promises (snd (stop w)) ! length (promises w) = Pending
     \<and> stops (snd (stop w)) ! length (stops w)
         = \<lparr>target = c, timeout = Some 5000, listening = True, resolves = length (promises w)\<rparr>
     \<and> promises (step (ChildExit c k) (snd (stop w))) ! length (promises w) = Fulfilled
     \<and> timeout (stops (step (ChildExit c k) (snd (stop w))) ! length (stops w)) = None
     \<and> trace (step (StopTimeout (length (stops w))) (snd (stop w)))
         = trace w @ [Kill c SIGTERM, Kill c SIGKILL, CallResolve (length (promises w))]
     \<and> promises (step (StopTimeout (length (stops w))) (snd (stop w))) ! length (promises w)
         = Fulfilled
     \<and> (\<forall>es e. promises (run es (snd (stop w))) ! length (promises w) \<noteq> Rejected e)"
  using stop_running_general [OF assms(2,3) reachable_allocated(2) [OF assms(1,2)]
      reachable_allocated(1) [OF assms(1)]] .

text \<open>C5 at the concrete run, stopped once the marker has arrived.\<close>

theorem stop_of_running_process_witness:
  "process (this ready) = Some 0 \<and> isRunning (this ready)
   \<and> stop ready = (Awaits 1, stopping)
   \<and> trace stopping = trace ready @ [Kill 0 SIGTERM]
   \<and> promises (step (ChildExit 0 (Some 0)) stopping) ! 1 = Fulfilled
   \<and> trace (step (StopTimeout 0) stopping)
       = trace ready @ [Kill 0 SIGTERM, Kill 0 SIGKILL, CallResolve 1]
   \<and> promises (step (StopTimeout 0) stopping) ! 1 = Fulfilled
   \<and> (\<forall>es e. promises (run es stopping) ! 1 \<noteq> Rejected e)"
proof -
  have s: "stop ready = (Awaits 1, stopping)"
    by (simp add: stopping_eq ready_eq starting_eq stop_def)
  show ?thesis
    using stop_of_running_process [OF ready_reachable ready_facts(1,2), of "Some 0"]
      ready_facts s
    by simp
qed

text \<open>
  C10. In any reachable world where a process handle exists and the startup of that
  process has not settled, \<^verbatim>\<open>isRunning\<close> is false and the startup promise is pending;
  \<^verbatim>\<open>stop()\<close> then returns a promise that is fulfilled at once and the world is the same
  afterwards: no signal is sent, no promise is settled, no field is written.
\<close>

theorem stop_while_starting:
  assumes "w = run es0 (boot nd ds cfg)" and "process (this w) = Some c"
    and "\<not> resolved (children w ! c)"
  shows "\<not> isRunning (this w)
     \<and> startupPromise (this w) = Some (settles (children w ! c))
     \<and> promises w ! settles (children w ! c) = Pending
     \<and> stop w = (Done, w) \<and> step CallStop w = w"
proof -
  have c: "c < length (children w)" using assms(1,2) by (rule reachable_allocated(2))
  have r: "\<not> isRunning (this w)" using assms(1) c assms(3) by (rule reachable_starting(1))
  have p: "promises w ! settles (children w ! c) = Pending"
    using reachable_unsettled [OF assms(1) c assms(3)] by (simp add: unsettled_def)
  show ?thesis
    using assms(2) r p reachable_starting(2) [OF assms(1) c assms(3)]
    by (simp add: stop_def step.simps)
qed

text \<open>C10 at the concrete run.\<close>

theorem stop_while_starting_witness:
  "process (this starting) = Some 0 \<and> \<not> resolved (children starting ! 0)
   \<and> \<not> isRunning (this starting) \<and> promises starting ! 0 = Pending
   \<and> stop starting = (Done, starting) \<and> step CallStop starting = starting"
proof -
  have h: "process (this starting) = Some 0" by (simp add: starting_eq)
  show ?thesis
    using stop_while_starting [OF starting_def h starting_attempt(2)] h starting_attempt
    by simp
qed

subsection \<open>The startup promise after a resolved startup\<close>

text \<open>
  A running controller in a reachable world has its \<^verbatim>\<open>startupPromise\<close> set, no run of
  \<^verbatim>\<open>_start\<close> suspended and every startup settled. An event other than an \<^verbatim>\<open>exit\<close>
  leaves its fields, its processes and the listeners of \<^verbatim>\<open>stop\<close> as they are.
\<close>

lemma running_facts:
  assumes "lifecycle w" "isRunning (this w)"
  shows "startupPromise (this w) \<noteq> None" "probing w = []" "list_all resolved (children w)"
  using assms unfolding lifecycle_def all_resolved_def by blast+

lemma step_running:
  assumes "lifecycle w" "isRunning (this w)" "\<not> is_exit e"
  shows "this (step e w) = this w \<and> length (children (step e w)) = length (children w)
     \<and> (\<forall>i < length (stops w).
           i < length (stops (step e w))
           \<and> target (stops (step e w) ! i) = target (stops w ! i)
           \<and> listening (stops (step e w) ! i) = listening (stops w ! i))"
proof -
  note r = running_facts [OF assms(1,2)]
  have res: "resolved (children w ! d)" if "d < length (children w)" for d
    using r(3) that by (simp add: list_all_length)
  show ?thesis
  proof (cases e)
    case CallStart
    then show ?thesis using r(1) by (auto simp: step.simps start_def)
  next
    case CallStop
    then show ?thesis by (auto simp: step.simps stop_def nth_append split: option.splits)
  next
    case (ServerListening p)
    then show ?thesis using r(2) by (simp add: step.simps)
  next
    case (ServerError p err)
    then show ?thesis using r(2) by (simp add: step.simps)
  next
    case (StdoutData d out)
    then show ?thesis using res [of d] by (simp add: step.simps on_stdout_data_def doResolve_def)
  next
    case (StderrData d out)
    then show ?thesis using res [of d] by (simp add: step.simps on_stderr_data_def doResolve_def)
  next
    case (ChildError d msg)
    then show ?thesis using res [of d] by (simp add: step.simps on_error_def doReject_def)
  next
    case (ChildExit d k)
    then show ?thesis using assms(3) by simp
  next
    case (StartupTimeout d)
    then show ?thesis
      using res [of d] by (simp add: step.simps on_startup_timeout_def doReject_def)
  next
    case (StopTimeout j)
    then show ?thesis
      by (auto simp: step.simps stop_timeout_def resolve_def nth_list_update
            split: option.splits)
  qed
qed

lemma run_running:
  assumes "lifecycle w" "isRunning (this w)" "list_all (\<lambda>a. \<not> is_exit a) es"
  shows "this (run es w) = this w \<and> length (children (run es w)) = length (children w)
     \<and> (\<forall>i < length (stops w).
           i < length (stops (run es w))
           \<and> target (stops (run es w) ! i) = target (stops w ! i)
           \<and> listening (stops (run es w) ! i) = listening (stops w ! i))"
  using assms
proof (induction es arbitrary: w)
  case Nil
  then show ?case by (simp add: run_def)
next
  case (Cons a es)
  let ?v = "step a w"
  note s = step_running [OF Cons.prems(1,2), of a]
  have l: "lifecycle ?v" using Cons.prems(1) by (rule lifecycle_step)
  have r: "isRunning (this ?v)" using s Cons.prems(2,3) by simp
  have ih: "this (run es ?v) = this ?v \<and> length (children (run es ?v)) = length (children ?v)
     \<and> (\<forall>i < length (stops ?v).
           i < length (stops (run es ?v))
           \<and> target (stops (run es ?v) ! i) = target (stops ?v ! i)
           \<and> listening (stops (run es ?v) ! i) = listening (stops ?v ! i))"
    using Cons.IH [OF l r] Cons.prems(3) by simp
  show ?case
    unfolding run_Cons using s ih Cons.prems(3) by simp
qed

text \<open>
  \<^verbatim>\<open>startupPromise\<close> is only ever set by \<^verbatim>\<open>start()\<close> on an enabled controller, and a
  probe or a process only exists if \<^verbatim>\<open>server.listen\<close> accepted the port.
\<close>

lemma this_doReject: "this (doReject d e w) = this w"
  by (simp add: doReject_def cleanup_def reject_def stop_def Let_def split: option.splits)

lemma startupPromise_on_exit: "startupPromise (this (on_exit d k w)) = startupPromise (this w)"
  by (simp add: on_exit_def this_doReject Let_def)

lemma startupPromise_step:
  "startupPromise (this (step e w)) = startupPromise (this w)
   \<or> startupPromise (this (step e w)) = None
   \<or> (e = CallStart \<and> enabled (config (this w)))"
proof (cases e)
  case CallStart
  then show ?thesis by (auto simp: step.simps start_def)
next
  case CallStop
  then show ?thesis by (simp add: step.simps stop_def split: option.splits)
next
  case (ChildExit d k)
  show ?thesis
  proof (cases "d < length (children w) \<and> exit_listeners d w \<noteq> []")
    case True
    then show ?thesis using ChildExit by (simp add: step.simps this_fold_stop_exit)
  next
    case False
    then show ?thesis using ChildExit by (auto simp: step.simps startupPromise_on_exit)
  qed
next
  case (StopTimeout i)
  then show ?thesis by (simp add: step.simps stop_timeout_def resolve_def split: option.splits)
next
  case (ServerListening r)
  then show ?thesis by (simp add: startupPromise_listening)
next
  case (ServerError r err)
  then show ?thesis by (simp add: startupPromise_server_error)
next
  case (StdoutData d out)
  then show ?thesis by (simp add: startupPromise_chunk)
next
  case (StderrData d out)
  then show ?thesis by (simp add: startupPromise_chunk)
next
  case (ChildError d msg)
  then show ?thesis by (simp add: step.simps on_error_def this_doReject)
next
  case (StartupTimeout d)
  then show ?thesis by (simp add: step.simps on_startup_timeout_def this_doReject)
qed

lemma started_step:
  assumes "startupPromise (this w) \<noteq> None \<longrightarrow> enabled (config (this w))"
    and "probing w \<noteq> [] \<or> children w \<noteq> [] \<longrightarrow>
           0 \<le> port (config (this w)) \<and> port (config (this w)) < 65536"
  shows "startupPromise (this (step e w)) \<noteq> None \<longrightarrow> enabled (config (this (step e w)))"
    and "probing (step e w) \<noteq> [] \<or> children (step e w) \<noteq> [] \<longrightarrow>
           0 \<le> port (config (this (step e w))) \<and> port (config (this (step e w))) < 65536"
proof -
  show "startupPromise (this (step e w)) \<noteq> None \<longrightarrow> enabled (config (this (step e w)))"
    using startupPromise_step [of e w] assms(1) by (auto simp: config_step)
  have a: "probing w \<noteq> [] \<or> (0 \<le> port (config (this w)) \<and> port (config (this w)) < 65536)"
    if "probing (step e w) \<noteq> []"
    using that
    by (cases e) (auto simp: probing_step start_def start_private_def split: option.splits if_splits)
  have b: "children w \<noteq> [] \<or> probing w \<noteq> []" if "children (step e w) \<noteq> []"
    using that length_children_step [of e w] by (cases e) (auto split: if_splits)
  show "probing (step e w) \<noteq> [] \<or> children (step e w) \<noteq> [] \<longrightarrow>
           0 \<le> port (config (this (step e w))) \<and> port (config (this (step e w))) < 65536"
    using a b assms(2) unfolding config_step by blast
qed

lemma started_run:
  assumes "startupPromise (this w) \<noteq> None \<longrightarrow> enabled (config (this w))"
    and "probing w \<noteq> [] \<or> children w \<noteq> [] \<longrightarrow>
           0 \<le> port (config (this w)) \<and> port (config (this w)) < 65536"
  shows "(startupPromise (this (run es w)) \<noteq> None \<longrightarrow> enabled (config (this (run es w))))
     \<and> (probing (run es w) \<noteq> [] \<or> children (run es w) \<noteq> [] \<longrightarrow>
           0 \<le> port (config (this (run es w))) \<and> port (config (this (run es w))) < 65536)"
  using assms
proof (induction es arbitrary: w)
  case Nil
  then show ?case by (simp add: run_def)
next
  case (Cons a es)
  show ?case
    unfolding run_Cons
    by (rule Cons.IH [OF started_step [OF Cons.prems]])
qed

lemma reachable_started:
  assumes "w = run es (boot nd ds cfg)"
  shows "startupPromise (this w) \<noteq> None \<Longrightarrow> enabled (config (this w))"
    and "children w \<noteq> [] \<Longrightarrow> 0 \<le> port (config (this w)) \<and> port (config (this w)) < 65536"
  using started_run [of "boot nd ds cfg" es] assms
  by (simp_all add: boot_def constructor_def)

lemma marker_this:
  assumes "c < length (children w)" "\<not> resolved (children w ! c)" "is_chunk c e" "is_signal c e"
  shows "this (step e w) = (this w)\<lparr>isRunning := True\<rparr>"
    "length (children (step e w)) = length (children w)"
  using assms
  by (cases e; simp add: step.simps on_stdout_data_def on_stderr_data_def doResolve_eq)+

text \<open>
  C3, amended. Take any reachable world whose process \<open>c\<close> has not settled its startup,
  with \<^verbatim>\<open>startupPromise\<close> holding \<open>p\<close>, and a chunk of output of \<open>c\<close> that carries the
  marker. After the chunk \<open>p\<close> is fulfilled and \<^verbatim>\<open>startupPromise\<close> still holds it.
  Whatever events follow, as long as none is an \<^verbatim>\<open>exit\<close>, \<^verbatim>\<open>startupPromise\<close> holds \<open>p\<close>,
  \<open>p\<close> is fulfilled, and \<^verbatim>\<open>start()\<close> returns a promise that takes the state of \<open>p\<close> and
  changes nothing. When \<^verbatim>\<open>stop()\<close> is then called and, after any events other than an
  \<^verbatim>\<open>exit\<close>, the process exits, \<^verbatim>\<open>startupPromise\<close> is cleared; the next \<^verbatim>\<open>start()\<close>
  begins a fresh attempt: a new promise, not \<open>p\<close>, pending and stored in
  \<^verbatim>\<open>startupPromise\<close>, and a new port probe.
\<close>

theorem startupPromise_kept_until_stop_exit:
  assumes "w = run es (boot nd ds cfg)"
    and "process (this w) = Some c" and "\<not> resolved (children w ! c)"
    and "startupPromise (this w) = Some p"
    and "is_chunk c e" and "is_signal c e"
    and "list_all (\<lambda>a. \<not> is_exit a) fs" and "list_all (\<lambda>a. \<not> is_exit a) gs"
    and "x = step e w" and "y = run fs x"
    and "z = run (CallStop # gs @ [ChildExit c k]) y"
  shows "startupPromise (this x) = Some p \<and> promises x ! p = Fulfilled
     \<and> startupPromise (this y) = Some p \<and> promises y ! p = Fulfilled
     \<and> start y = (Awaits p, y)
     \<and> startupPromise (this z) = None
     \<and> p < length (promises z)
     \<and> fst (start z) = Awaits (length (promises z))
     \<and> startupPromise (this (snd (start z))) = Some (length (promises z))
     \<and> promises (snd (start z)) ! length (promises z) = Pending
     \<and> probing (snd (start z)) = [length (promises z)]
     \<and> trace (snd (start z)) = trace z @ [Listen (port (config (this z))) ''127.0.0.1'']"
proof -
  let ?boot = "boot nd ds cfg"
  have c: "c < length (children w)" using assms(1,2) by (rule reachable_allocated(2))
  have lw: "lifecycle w" unfolding assms(1) by (rule lifecycle_run [OF lifecycle_boot])
  have p: "settles (children w ! c) = p"
    using reachable_starting(2) [OF assms(1) c assms(3)] assms(4) by simp
  have u: "unsettled c p w" using reachable_unsettled [OF assms(1) c assms(3)] p by simp
  have en: "enabled (config (this w))"
    using reachable_started(1) [OF assms(1)] assms(4) by simp
  have port: "0 \<le> port (config (this w)) \<and> port (config (this w)) < 65536"
  proof -
    have "children w \<noteq> []" using c by auto
    then show ?thesis by (rule reachable_started(2) [OF assms(1)])
  qed
  have sx: "settled_as c p Fulfilled x"
    using signal_settles [OF u assms(6)] outcome_Fulfilled [OF assms(6)] assms(5,9) by simp
  have tx: "this x = (this w)\<lparr>isRunning := True\<rparr>" and kx: "length (children x) = length (children w)"
    unfolding assms(9) using marker_this [OF c assms(3,5,6)] by simp_all
  have lx: "lifecycle x" unfolding assms(9) using lw by (rule lifecycle_step)
  have rx: "isRunning (this x)" by (simp add: tx)
  note ry = run_running [OF lx rx assms(7)]
  have ty: "this y = this x" and ky: "length (children y) = length (children w)"
    unfolding assms(10) using ry kx by simp_all
  have ly: "lifecycle y" unfolding assms(10) using lx by (rule lifecycle_run)
  have sy: "settled_as c p Fulfilled y" unfolding assms(10) using sx by (rule settled_run)
  let ?v = "snd (stop y)"
  let ?i = "length (stops y)"
  have py: "process (this y) = Some c" and iy: "isRunning (this y)"
    using assms(2) by (simp_all add: ty tx)
  note eq = stop_running_eq [OF py iy]
  have tv: "this ?v = this x" and kv: "length (children ?v) = length (children w)"
    and cl: "?i < length (stops ?v)" "target (stops ?v ! ?i) = c" "listening (stops ?v ! ?i)"
    by (simp_all add: eq ty ky)
  have lv: "lifecycle ?v" using ly by (rule lifecycle_stop)
  have rv: "isRunning (this ?v)" by (simp add: tv rx)
  let ?y2 = "run gs ?v"
  note r2 = run_running [OF lv rv assms(8)]
  have t2: "this ?y2 = this x" and k2: "length (children ?y2) = length (children w)"
    and c2: "?i < length (stops ?y2)" "target (stops ?y2 ! ?i) = c" "listening (stops ?y2 ! ?i)"
    using r2 tv kv cl by simp_all
  have z: "z = step (ChildExit c k) ?y2"
    unfolding assms(11) by (simp add: run_Cons run_append step.simps) (simp add: run_def)
  have ne: "exit_listeners c ?y2 \<noteq> []"
  proof -
    have "?i \<in> set (exit_listeners c ?y2)" using c2 by (simp add: exit_listeners_def)
    then show ?thesis by auto
  qed
  have tz: "this z = (this (on_exit c k ?y2))\<lparr>isRunning := False, process := None,
                                                startupPromise := None\<rparr>"
    unfolding z using c k2 ne by (simp add: step.simps this_fold_stop_exit)
  have zr: "z = run (es @ e # fs @ CallStop # gs @ [ChildExit c k]) ?boot"
    unfolding assms(11,10,9,1) by (simp add: run_append run_Cons)
  have lz: "lifecycle z" unfolding zr by (rule lifecycle_run [OF lifecycle_boot])
  have sz: "settled_as c p Fulfilled z"
    unfolding assms(11) using sy by (rule settled_run)
  have pz: "p < length (promises z)" using sz by (simp add: settled_as_def sole_settler_iff)
  have cz: "config (this z) = config (this w)"
    unfolding assms(11,10,9) by (simp add: config_run config_step)
  have nz: "startupPromise (this z) = None" "\<not> isRunning (this z)" by (simp_all add: tz)
  have qz: "probing z = []" using lz nz(1) by (simp add: lifecycle_def)
  have ez: "enabled (config (this z))" using en by (simp add: cz)
  have vz: "0 \<le> port (config (this z))" "port (config (this z)) < 65536"
    using port by (simp_all add: cz)
  note fr = start_fresh [OF ez nz vz]
  have a: "startupPromise (this x) = Some p \<and> promises x ! p = Fulfilled"
    using assms(4) sx by (simp add: tx settled_as_def)
  have b: "startupPromise (this y) = Some p \<and> promises y ! p = Fulfilled"
    using assms(4) sy by (simp add: ty tx settled_as_def)
  have ey: "enabled (config (this y))" using en by (simp add: ty tx)
  have st: "start y = (Awaits p, y)" using ey b by (simp add: start_pending)
  show ?thesis
    using a b st nz(1) pz by (simp add: fr qz)
qed

text \<open>
  C3, amended, at the concrete run: the marker; then a call of \<^verbatim>\<open>start()\<close>, more output
  and the startup timer; then \<^verbatim>\<open>stop()\<close>, its grace timer, another \<^verbatim>\<open>start()\<close>, and the
  exit of the killed process.
\<close>

theorem startupPromise_kept_until_stop_exit_witness:
  "process (this starting) = Some 0 \<and> \<not> resolved (children starting ! 0)
   \<and> startupPromise (this starting) = Some 0
   \<and> is_chunk 0 (StdoutData 0 ''NETWORK  [listener] waiting for connections on port 27017'')
   \<and> is_signal 0 (StdoutData 0 ''NETWORK  [listener] waiting for connections on port 27017'')
   \<and> list_all (\<lambda>a. \<not> is_exit a)
        [CallStart, StderrData 0 ''connection accepted'', StartupTimeout 0]
   \<and> list_all (\<lambda>a. \<not> is_exit a) [StopTimeout 0, CallStart]
   \<and> startupPromise (this ready) = Some 0 \<and> promises ready ! 0 = Fulfilled
   \<and> start (run [CallStart, StderrData 0 ''connection accepted'', StartupTimeout 0] ready)
       = (Awaits 0, run [CallStart, StderrData 0 ''connection accepted'', StartupTimeout 0] ready)
   \<and> startupPromise
        (this (run (CallStop # [StopTimeout 0, CallStart] @ [ChildExit 0 None])
                 (run [CallStart, StderrData 0 ''connection accepted'', StartupTimeout 0] ready)))
       = None
   \<and> startupPromise
        (this (snd (start
           (run (CallStop # [StopTimeout 0, CallStart] @ [ChildExit 0 None])
              (run [CallStart, StderrData 0 ''connection accepted'', StartupTimeout 0] ready)))))
       = Some (length (promises
           (run (CallStop # [StopTimeout 0, CallStart] @ [ChildExit 0 None])
              (run [CallStart, StderrData 0 ''connection accepted'', StartupTimeout 0] ready))))"
proof -
  have h: "process (this starting) = Some 0" "startupPromise (this starting) = Some 0"
    by (simp_all add: starting_eq)
  show ?thesis
    using startupPromise_kept_until_stop_exit [where w = starting and c = 0 and p = 0
        and e = "StdoutData 0 ''NETWORK  [listener] waiting for connections on port 27017''"
        and fs = "[CallStart, StderrData 0 ''connection accepted'', StartupTimeout 0]"
        and gs = "[StopTimeout 0, CallStart]" and k = None and x = ready
        and y = "run [CallStart, StderrData 0 ''connection accepted'', StartupTimeout 0] ready"
        and z = "run (CallStop # [StopTimeout 0, CallStart] @ [ChildExit 0 None])
                   (run [CallStart, StderrData 0 ''connection accepted'', StartupTimeout 0] ready)",
        OF starting_def h(1) starting_attempt(2) h(2)]
      h starting_attempt(2)
    by (simp add: ready_def)
qed

end
